theory Spec2Isabelle
  imports Main
begin

section \<open>Data model\<close>

text \<open>
  The service keeps everything in one flat Redis namespace (the \<open>DBSchema\<close> type of
  \<open>endpoints/groups.ts\<close>): instance records, group records, the per-group index of
  instance ids, the list of all group ids, the mutex timestamps and the \<open>last_gc\<close>
  timestamp. Redis stores strings; the code writes \<open>JSON.stringify x\<close> and reads back
  with \<open>JSON.parse\<close>. The model stores the parsed value and keeps its shape as a
  constructor, so a read of a key that holds a value of another shape (possible, since
  distinct entities can share a key) is still visible to the model.

  Timestamps are \<open>Date.now()\<close> milliseconds, far below \<open>2^53\<close>, so the JavaScript
  arithmetic on them is exact and they are modelled as \<open>int\<close>. The \<open>meta\<close> payload
  is opaque to the service; it is carried as the text of the JSON object.
\<close>

record TInstance =
  i_id :: string
  i_group :: string
  i_createdAt :: int
  i_updatedAt :: int
  i_meta :: string

record TGroup =
  g_group :: string
  g_createdAt :: int
  g_lastUpdatedAt :: int

datatype val =
    VNum int
  | VIds "string list"
  | VInst TInstance
  | VGrp TGroup

record TConfig =
  gcInterval :: int
  instanceTimeout :: int
  mutexTimeout :: int

text \<open>
  The world a handler runs in: the Redis store \<open>ctx.state.db\<close>, the millisecond clock
  read by \<open>Date.now()\<close>, the field \<open>ctx.state.lastInstancesDispose\<close> (\<open>None\<close> stands for
  \<open>undefined\<close> and for \<open>NaN\<close>: every comparison with either is false) and the
  counter \<open>app.gcCounter\<close>. The clock does not move while a handler computes; it moves
  when the handler sleeps.
\<close>

record world =
  db :: "string \<rightharpoonup> val"
  clock :: int
  lastInstancesDispose :: "int option"
  gcCounter :: nat

datatype error = TypeError | Unrepresentable

text \<open>
  What a call of an \<open>async\<close> function comes to: it returns, it throws, or it never
  settles (the polling loop of the mutex has no exit but the two in its body).
\<close>

datatype 'a outcome = Returns 'a | Throws error | Hangs

definition await :: "'a outcome \<Rightarrow> ('a \<Rightarrow> 'b outcome) \<Rightarrow> 'b outcome" where
  "await m f = (case m of Returns x \<Rightarrow> f x | Throws e \<Rightarrow> Throws e | Hangs \<Rightarrow> Hangs)"

datatype status = OK | NOT_FOUND | NO_CONTENT

section \<open>Key-space mapper\<close>

definition getInstanceKey :: "string \<Rightarrow> string \<Rightarrow> string" where
  "getInstanceKey gid ident = ''instance:'' @ gid @ '':'' @ ident"

definition getGroupKey :: "string \<Rightarrow> string" where
  "getGroupKey gid = ''group:'' @ gid"

definition getGroupIndexKey :: "string \<Rightarrow> string" where
  "getGroupIndexKey gid = ''group:'' @ gid @ '':instances''"

definition listIndexKey :: string where
  "listIndexKey = ''groups''"

section \<open>Store primitives, clock\<close>

definition db_get :: "string \<Rightarrow> world \<Rightarrow> val option" where
  "db_get key w = db w key"

definition db_set :: "string \<Rightarrow> val \<Rightarrow> world \<Rightarrow> world" where
  "db_set key v w = w\<lparr>db := (db w)(key \<mapsto> v)\<rparr>"

definition db_del :: "string \<Rightarrow> world \<Rightarrow> world" where
  "db_del key w = w\<lparr>db := (db w)(key := None)\<rparr>"

definition db_exists :: "string \<Rightarrow> world \<Rightarrow> bool" where
  "db_exists key w = (case db w key of None \<Rightarrow> False | Some v \<Rightarrow> True)"

definition now :: "world \<Rightarrow> int" where
  "now w = clock w"

definition sleep :: "int \<Rightarrow> world \<Rightarrow> world" where
  "sleep ms w = w\<lparr>clock := clock w + ms\<rparr>"

text \<open>
  \<open>parseInt(s, 10)\<close> of a stored value: the text of a number parses to that number,
  the text of an array or an object starts with a bracket and parses to \<open>NaN\<close>.
\<close>

definition parseInt :: "val \<Rightarrow> int option" where
  "parseInt v = (case v of VNum n \<Rightarrow> Some n | VIds xs \<Rightarrow> None | VInst i \<Rightarrow> None | VGrp g \<Rightarrow> None)"

section \<open>Mutex primitive\<close>

text \<open>
  \<open>aquireLock\<close> of \<open>db.ts\<close>: the \<open>while (true)\<close> loop, then the claim. The loop leaves
  through one of its two \<open>break\<close>s or not at all, so it is a partial function and
  \<open>None\<close> is the run that polls forever. \<open>!mutex\<close> holds of an absent key only (the
  text of a stored value is never empty). \<open>NaN + mutexTimeout < Date.now()\<close> is false.
  The sleep is \<open>mutexTimeout / 25\<close> milliseconds, in whole milliseconds here. Only
  the sleeps move the clock of the model, and nobody else writes to the store while the
  caller waits: a lock that is held is waited for until its timestamp is too old, and
  with a \<open>mutexTimeout\<close> under 25 (a sleep of no length) it never is.
\<close>

partial_function (option) aquireLock_loop :: "TConfig \<Rightarrow> string \<Rightarrow> world \<Rightarrow> world option" where
  "aquireLock_loop cfg name w =
     (case db_get (''mutex:'' @ name) w of
        None \<Rightarrow> Some w
      | Some mutex \<Rightarrow>
          (case parseInt mutex of
             None \<Rightarrow> aquireLock_loop cfg name (sleep (mutexTimeout cfg div 25) w)
           | Some start \<Rightarrow>
               if start + mutexTimeout cfg < now w then Some w
               else aquireLock_loop cfg name (sleep (mutexTimeout cfg div 25) w)))"

declare aquireLock_loop.simps [code]

definition aquireLock :: "TConfig \<Rightarrow> string \<Rightarrow> world \<Rightarrow> world outcome" where
  "aquireLock cfg name w =
     (case aquireLock_loop cfg name w of
        None \<Rightarrow> Hangs
      | Some w' \<Rightarrow> Returns (db_set (''mutex:'' @ name) (VNum (now w')) w'))"

definition releaseLock :: "string \<Rightarrow> world \<Rightarrow> world" where
  "releaseLock key w = db_del (''mutex:'' @ key) w"

definition aquireListIndexLock :: "TConfig \<Rightarrow> world \<Rightarrow> world outcome" where
  "aquireListIndexLock cfg w = aquireLock cfg listIndexKey w"

definition releaseListIndexLock :: "world \<Rightarrow> world" where
  "releaseListIndexLock w = releaseLock listIndexKey w"

definition aquireGroupLock :: "TConfig \<Rightarrow> string \<Rightarrow> world \<Rightarrow> world outcome" where
  "aquireGroupLock cfg gid w = aquireLock cfg (getGroupIndexKey gid) w"

definition releaseGroupLock :: "string \<Rightarrow> world \<Rightarrow> world" where
  "releaseGroupLock gid w = releaseLock (getGroupIndexKey gid) w"

section \<open>Group index manager\<close>

text \<open>
  \<open>getList\<close> parses the value under \<open>groups\<close>, or \<open>"[]"\<close> when the key is absent.
\<close>

definition getList :: "world \<Rightarrow> val" where
  "getList w = (case db_get listIndexKey w of None \<Rightarrow> VIds [] | Some v \<Rightarrow> v)"

text \<open>
  \<open>alterListIndex\<close>. \<open>add\<close> and \<open>remove\<close> are \<open>string[] | null\<close> (\<open>None\<close> for
  \<open>null\<close> and for a missing argument); \<open>add?.length\<close> is truthy for a non-empty
  array only. \<open>gids.length\<close> is truthy for a non-empty array and \<open>undefined\<close> for
  a number or an object. \<open>the add\<close> and \<open>the remove\<close> are read only where the
  test has just found an array. The branch for an empty list writes twice, as the
  source does.
\<close>

definition hasLength :: "string list option \<Rightarrow> bool" where
  "hasLength xs = (case xs of None \<Rightarrow> False | Some ys \<Rightarrow> ys \<noteq> [])"

definition alterListIndex :: "string list option \<Rightarrow> string list option \<Rightarrow> world \<Rightarrow> world" where
  "alterListIndex add remove w =
     (let key = listIndexKey;
          gids = getList w
      in case gids of
           VIds (g # gs) \<Rightarrow>
             (let gids1 = (if hasLength add then (g # gs) @ the add else g # gs);
                  gids2 = (if hasLength remove
                           then filter (\<lambda>gid. gid \<notin> set (the remove)) gids1
                           else gids1)
              in db_set key (VIds gids2) w)
         | _ \<Rightarrow>
             (if hasLength add
              then db_set key (VIds (the add)) (db_set key (VIds (the add)) w)
              else db_set key gids w))"

text \<open>
  \<open>addGroup\<close> and \<open>removeGroup\<close>. The three stores of each \<open>Promise.all\<close> go to
  Redis over one connection in the order they are written down, which is the order
  here. The record of \<open>addGroup\<close> is built, with its two \<open>Date.now()\<close>, before the
  lock is awaited.
\<close>

definition addGroup :: "TConfig \<Rightarrow> string \<Rightarrow> string \<Rightarrow> world \<Rightarrow> world outcome" where
  "addGroup cfg gid ident w =
     (let key = getGroupKey gid;
          indexKey = getGroupIndexKey gid;
          grp = \<lparr>g_group = gid, g_createdAt = now w, g_lastUpdatedAt = now w\<rparr>;
          index = [ident]
      in await (aquireListIndexLock cfg w) (\<lambda>w1.
           let w2 = db_set key (VGrp grp) w1;
               w3 = db_set indexKey (VIds index) w2;
               w4 = alterListIndex (Some [gid]) None w3
           in Returns (releaseListIndexLock w4)))"

definition removeGroup :: "TConfig \<Rightarrow> string \<Rightarrow> world \<Rightarrow> world outcome" where
  "removeGroup cfg gid w =
     (let key = getGroupKey gid;
          indexKey = getGroupIndexKey gid
      in await (aquireListIndexLock cfg w) (\<lambda>w1.
           let w2 = db_del key w1;
               w3 = db_del indexKey w2;
               w4 = alterListIndex None (Some [gid]) w3
           in Returns (releaseListIndexLock w4)))"

section \<open>Instance manager\<close>

text \<open>
  An index is read with \<open>JSON.parse\<close> and then used as an array (\<open>push\<close>,
  \<open>filter\<close>, \<open>map\<close>): on a value that is no array the call throws a TypeError.
\<close>

definition addInstance :: "string \<Rightarrow> string \<Rightarrow> string \<Rightarrow> world \<Rightarrow> world outcome" where
  "addInstance gid ident payload w =
     (let key = getInstanceKey gid ident;
          instance = \<lparr>i_id = ident, i_group = gid, i_createdAt = now w,
                      i_updatedAt = now w, i_meta = payload\<rparr>;
          indexKey = getGroupIndexKey gid
      in case db_get indexKey w of
           None \<Rightarrow>
             Returns (db_set indexKey (VIds [ident]) (db_set key (VInst instance) w))
         | Some (VIds ids) \<Rightarrow>
             Returns (db_set indexKey (VIds (ids @ [ident])) (db_set key (VInst instance) w))
         | Some _ \<Rightarrow> Throws TypeError)"

definition removeInstance :: "TConfig \<Rightarrow> string \<Rightarrow> string \<Rightarrow> world \<Rightarrow> world outcome" where
  "removeInstance cfg gid ident w =
     (let key = getInstanceKey gid ident;
          w1 = db_del key w;
          indexKey = getGroupIndexKey gid
      in case db_get indexKey w1 of
           None \<Rightarrow> Returns w1
         | Some (VIds ids0) \<Rightarrow>
             (let ids = filter (\<lambda>item. item \<noteq> ident) ids0
              in if ids = [] then removeGroup cfg gid w1 else Returns w1)
         | Some _ \<Rightarrow> Throws TypeError)"

text \<open>
  The handler of \<open>POST /:group/:id\<close>. The two tasks are started in the order of the
  source and their stores reach Redis in that order: the first task reads the index
  before the second writes anything, and writes before the second has its lock.
  Setting \<open>updatedAt\<close> or \<open>lastUpdatedAt\<close> on a parsed array is lost again by
  \<open>JSON.stringify\<close>; on a value of any other foreign shape the source goes on with
  an object this model has no constructor for (or throws), which is \<open>Unrepresentable\<close>.
  Under an instance key only instance records are ever stored.
\<close>

definition postInstance ::
  "TConfig \<Rightarrow> string \<Rightarrow> string \<Rightarrow> string \<Rightarrow> world \<Rightarrow> (string \<times> world) outcome" where
  "postInstance cfg gid ident payload w =
     (let key = getInstanceKey gid ident;
          groupKey = getGroupKey gid
      in await (aquireGroupLock cfg gid w) (\<lambda>w1.
           let groupJSON = db_get groupKey w1;
               instanceJSON = db_get key w1
           in await
                (case instanceJSON of
                   None \<Rightarrow> addInstance gid ident payload w1
                 | Some (VInst instance) \<Rightarrow>
                     Returns (db_set key (VInst (instance\<lparr>i_updatedAt := now w1\<rparr>)) w1)
                 | Some (VIds xs) \<Rightarrow> Returns (db_set key (VIds xs) w1)
                 | Some _ \<Rightarrow> Throws Unrepresentable)
                (\<lambda>w2. await
                   (case groupJSON of
                      None \<Rightarrow> addGroup cfg gid ident w2
                    | Some (VGrp grp) \<Rightarrow>
                        Returns (db_set groupKey (VGrp (grp\<lparr>g_lastUpdatedAt := now w1\<rparr>)) w2)
                    | Some (VIds xs) \<Rightarrow> Returns (db_set groupKey (VIds xs) w2)
                    | Some _ \<Rightarrow> Throws Unrepresentable)
                   (\<lambda>w3. Returns (payload, releaseGroupLock gid w3)))))"

text \<open>The handler of \<open>DELETE /:group/:id\<close>.\<close>

definition deleteInstance ::
  "TConfig \<Rightarrow> string \<Rightarrow> string \<Rightarrow> world \<Rightarrow> (status \<times> world) outcome" where
  "deleteInstance cfg gid ident w =
     (if \<not> db_exists (getGroupKey gid) w then Returns (NOT_FOUND, w)
      else await (removeInstance cfg gid ident w) (\<lambda>w1. Returns (NO_CONTENT, w1)))"

section \<open>Garbage collector\<close>

definition tooSoon :: "TConfig \<Rightarrow> int \<Rightarrow> int option \<Rightarrow> bool" where
  "tooSoon cfg t lastRun = (case lastRun of None \<Rightarrow> False | Some l \<Rightarrow> l + gcInterval cfg > t)"

definition shouldGC :: "TConfig \<Rightarrow> world \<Rightarrow> bool \<times> world" where
  "shouldGC cfg w =
     (let t = now w
      in if tooSoon cfg t (lastInstancesDispose w) then (False, w)
         else
           (let lastGC = (case db_get ''last_gc'' w of None \<Rightarrow> Some 0 | Some v \<Rightarrow> parseInt v);
                w1 = w\<lparr>lastInstancesDispose := lastGC\<rparr>
            in if tooSoon cfg t (lastInstancesDispose w1) then (False, w1) else (True, w1)))"

text \<open>
  The test of the sweep, \<open>!instance || instance.updatedAt + config.instanceTimeout > now\<close>,
  on a parsed value: a record is alive while its deadline is after \<open>now\<close>; \<open>0\<close> is
  falsy; every other value is truthy and has no \<open>updatedAt\<close>, and \<open>NaN > now\<close> is false.
\<close>

definition alive :: "TConfig \<Rightarrow> int \<Rightarrow> val \<Rightarrow> bool" where
  "alive cfg t v =
     (case v of
        VInst instance \<Rightarrow> i_updatedAt instance + instanceTimeout cfg > t
      | VNum n \<Rightarrow> n = 0
      | VIds xs \<Rightarrow> False
      | VGrp g \<Rightarrow> False)"

text \<open>
  The callback of \<open>ids.map\<close>: it works on the store and on the variable \<open>ids\<close>, which
  it reassigns. The callbacks of one group are taken one after the other, in the
  order of the index. The source sends the reads of all of them before the first
  delete; the outcome is the same, since within a group two ids share a key only when
  they are equal, and an id listed twice is dropped at its first visit and found
  without a record at the second. The groups of the list are taken one after the
  other as well. Their callbacks work on keys of their own, unless two listed groups
  share an instance key or a group is listed twice; how the reads and deletes of such
  groups interleave in the source is not modelled.
\<close>

definition sweepInstance ::
  "TConfig \<Rightarrow> int \<Rightarrow> string \<Rightarrow> string \<Rightarrow> world \<times> string list \<Rightarrow> world \<times> string list" where
  "sweepInstance cfg t gid ident s =
     (let w = fst s;
          ids = snd s;
          key = getInstanceKey gid ident
      in case db_get key w of
           None \<Rightarrow> (w, ids)
         | Some instance \<Rightarrow>
             if alive cfg t instance then (w, ids)
             else (db_del key w, filter (\<lambda>item. item \<noteq> ident) ids))"

definition sweepGroup ::
  "TConfig \<Rightarrow> int \<Rightarrow> string \<Rightarrow> world \<times> string list \<Rightarrow> (world \<times> string list) outcome" where
  "sweepGroup cfg t gid s =
     (let gidsToRemove = snd s;
          indexKey = getGroupIndexKey gid
      in await (aquireGroupLock cfg gid (fst s)) (\<lambda>w1.
           case (case db_get indexKey w1 of None \<Rightarrow> VIds [] | Some v \<Rightarrow> v) of
             VIds ids0 \<Rightarrow>
               (let r = fold (sweepInstance cfg t gid) ids0 (w1, ids0);
                    w2 = fst r;
                    ids = snd r
                in if ids = [] then Returns (w2, gidsToRemove @ [gid])
                   else Returns (db_set indexKey (VIds ids) w2, gidsToRemove))
           | _ \<Rightarrow> Throws TypeError))"

fun sweepGroups ::
  "TConfig \<Rightarrow> int \<Rightarrow> string list \<Rightarrow> world \<times> string list \<Rightarrow> (world \<times> string list) outcome" where
  "sweepGroups cfg t [] s = Returns s"
| "sweepGroups cfg t (gid # gids) s = await (sweepGroup cfg t gid s) (sweepGroups cfg t gids)"

definition removeMarked :: "string list \<Rightarrow> world \<Rightarrow> world" where
  "removeMarked gidsToRemove w =
     (if gidsToRemove \<noteq> []
      then alterListIndex None (Some gidsToRemove)
             (fold (\<lambda>gid. db_del (getGroupIndexKey gid)) gidsToRemove
               (fold (\<lambda>gid. db_del (getGroupKey gid)) gidsToRemove w))
      else w)"

definition disposeExpired :: "TConfig \<Rightarrow> world \<Rightarrow> world outcome" where
  "disposeExpired cfg w =
     (let g = shouldGC cfg w
      in if \<not> fst g then Returns (snd g)
         else
           (let w1 = (snd g)\<lparr>gcCounter := gcCounter (snd g) + 1\<rparr>;
                t = now w1;
                w2 = db_set ''last_gc'' (VNum (now w1)) w1
            in await (aquireListIndexLock cfg w2) (\<lambda>w3.
                 case getList w3 of
                   VIds gids \<Rightarrow>
                     await (sweepGroups cfg t gids (w3, [])) (\<lambda>r.
                       let w5 = removeMarked (snd r) (fst r);
                           w6 = db_set ''last_gc'' (VNum (now w5)) w5;
                           w7 = w6\<lparr>lastInstancesDispose := Some (now w6)\<rparr>
                       in Returns (fold releaseGroupLock gids (releaseListIndexLock w7)))
                 | _ \<Rightarrow> Throws TypeError)))"

text \<open>
  The handler of \<open>GET /:group\<close>: the sweep, then the index. The body lists what is
  stored under the instance key of each id of the index.
\<close>

definition getGroup ::
  "TConfig \<Rightarrow> string \<Rightarrow> world \<Rightarrow> (status \<times> val option list \<times> world) outcome" where
  "getGroup cfg gid w =
     await (disposeExpired cfg w) (\<lambda>w1.
       case db_get (getGroupIndexKey gid) w1 of
         None \<Rightarrow> Returns (NOT_FOUND, [], w1)
       | Some (VIds ids) \<Rightarrow>
           Returns (OK, map (\<lambda>ident. db_get (getInstanceKey gid ident) w1) ids, w1)
       | Some _ \<Rightarrow> Throws TypeError)"

section \<open>Requests\<close>

datatype request =
    POST string string string
  | DELETE string string
  | GET string

definition handle :: "TConfig \<Rightarrow> request \<Rightarrow> world \<Rightarrow> world outcome" where
  "handle cfg req w =
     (case req of
        POST gid ident payload \<Rightarrow>
          await (postInstance cfg gid ident payload w) (\<lambda>r. Returns (snd r))
      | DELETE gid ident \<Rightarrow>
          await (deleteInstance cfg gid ident w) (\<lambda>r. Returns (snd r))
      | GET gid \<Rightarrow>
          await (getGroup cfg gid w) (\<lambda>r. Returns (snd (snd r))))"

text \<open>
  A client that sends requests one after the other, each some milliseconds after the
  answer to the one before.
\<close>

fun serve :: "TConfig \<Rightarrow> (int \<times> request) list \<Rightarrow> world \<Rightarrow> world outcome" where
  "serve cfg [] w = Returns w"
| "serve cfg ((ms, req) # reqs) w = await (handle cfg req (sleep ms w)) (serve cfg reqs)"

definition emptyWorld :: "int \<Rightarrow> world" where
  "emptyWorld t = \<lparr>db = Map.empty, clock = t, lastInstancesDispose = None, gcCounter = 0\<rparr>"

definition config :: TConfig where
  "config = \<lparr>gcInterval = 60 * 1000, instanceTimeout = 60 * 1000, mutexTimeout = 2 * 1000\<rparr>"

section \<open>Predicates and sample worlds used in the statements\<close>

text \<open>
  The exit test of the polling loop: the key is absent, or it holds a number whose age
  is more than \<open>mutexTimeout\<close>.
\<close>

definition mutexFree :: "TConfig \<Rightarrow> string \<Rightarrow> world \<Rightarrow> bool" where
  "mutexFree cfg name w =
     (case db_get (''mutex:'' @ name) w of
        None \<Rightarrow> True
      | Some mutex \<Rightarrow>
          (case parseInt mutex of
             None \<Rightarrow> False
           | Some start \<Rightarrow> start + mutexTimeout cfg < now w))"

text \<open>A world in which the list lock was taken 1900 ms ago.\<close>

definition heldWorld :: world where
  "heldWorld = db_set ''mutex:groups'' (VNum 1000) (emptyWorld 2900)"

text \<open>A world with one group \<open>g\<close> and its one instance \<open>a\<close>, created at 1000.\<close>

definition oneGroup :: world where
  "oneGroup =
     db_set ''groups'' (VIds [''g''])
      (db_set ''group:g:instances'' (VIds [''a''])
        (db_set ''group:g'' (VGrp \<lparr>g_group = ''g'', g_createdAt = 1000, g_lastUpdatedAt = 1000\<rparr>)
          (db_set ''instance:g:a''
             (VInst \<lparr>i_id = ''a'', i_group = ''g'', i_createdAt = 1000, i_updatedAt = 1000,
                     i_meta = ''{}''\<rparr>)
             (emptyWorld 5000))))"

text \<open>
  The verdict of the sweep on an id of an index: nothing is stored under its instance
  key, or what is stored passes the test \<open>alive\<close>.
\<close>

definition survives :: "TConfig \<Rightarrow> int \<Rightarrow> string \<Rightarrow> world \<Rightarrow> string \<Rightarrow> bool" where
  "survives cfg t gid w ident =
     (case db_get (getInstanceKey gid ident) w of None \<Rightarrow> True | Some v \<Rightarrow> alive cfg t v)"

text \<open>A world whose group \<open>g\<close> lists an id \<open>a\<close> that has no record.\<close>

definition staleWorld :: world where
  "staleWorld =
     db_set ''group:g:instances'' (VIds [''a''])
       (db_set ''groups'' (VIds [''g'']) (emptyWorld 100000))"

text \<open>
  What a sweep needs of the store to run to its end: every mutex key holds a timestamp
  or nothing (a lock with any other value never times out), the list of groups is an
  array, and the index of every listed group is an array or absent (anything else
  makes \<open>ids.map\<close> throw).
\<close>

definition timestampOrAbsent :: "val option \<Rightarrow> bool" where
  "timestampOrAbsent v = (case v of None \<Rightarrow> True | Some (VNum n) \<Rightarrow> True | Some _ \<Rightarrow> False)"

definition idsOrAbsent :: "val option \<Rightarrow> bool" where
  "idsOrAbsent v = (case v of None \<Rightarrow> True | Some (VIds xs) \<Rightarrow> True | Some _ \<Rightarrow> False)"


text \<open>
  What the handlers keep true of the indexes when no group id holds a colon: the value
  under an index key is an array without repetition, its group id holds no colon, and
  every id it lists has something stored under its instance key; the list of groups is
  an array of ids without colon. During a sweep the groups already marked for removal
  are exempt: their records are gone while their index is still stored.
\<close>

definition colonFree :: "string \<Rightarrow> bool" where
  "colonFree s = (CHR '':'' \<notin> set s)"

definition indexSound :: "world \<Rightarrow> string \<Rightarrow> bool" where
  "indexSound w gid =
     (case db_get (getGroupIndexKey gid) w of
        None \<Rightarrow> True
      | Some (VIds ids) \<Rightarrow>
          colonFree gid \<and> distinct ids \<and> (\<forall>i\<in>set ids. db_get (getInstanceKey gid i) w \<noteq> None)
      | Some _ \<Rightarrow> False)"

definition listSound :: "world \<Rightarrow> bool" where
  "listSound w = (case getList w of VIds gs \<Rightarrow> \<forall>g\<in>set gs. colonFree g | _ \<Rightarrow> False)"

definition sound :: "world \<Rightarrow> bool" where
  "sound w = ((\<forall>gid. indexSound w gid) \<and> listSound w)"

definition sweeping :: "string list \<Rightarrow> world \<Rightarrow> bool" where
  "sweeping marked w =
     ((\<forall>gid. gid \<notin> set marked \<longrightarrow> indexSound w gid) \<and> listSound w
      \<and> (\<forall>m\<in>set marked. colonFree m))"

text \<open>
  The worlds reached from the empty store by upserts and removals for group ids without
  colon and by sweeps (the handlers of \<open>GET\<close> run one and then only read), while
  time passes and \<open>ctx.state.lastInstancesDispose\<close> is whatever the request starts
  with. One kind of removal is left out: that of an id which the index lists together
  with another id.
\<close>

inductive reachable :: "TConfig \<Rightarrow> world \<Rightarrow> bool" for cfg :: TConfig where
  start: "reachable cfg (emptyWorld t)"
| elapse: "reachable cfg w \<Longrightarrow> reachable cfg (sleep ms w)"
| fresh_state: "reachable cfg w \<Longrightarrow> reachable cfg (w\<lparr>lastInstancesDispose := l\<rparr>)"
| upsert: "reachable cfg w \<Longrightarrow> colonFree gid \<Longrightarrow>
           postInstance cfg gid ident payload w = Returns (body, w') \<Longrightarrow> reachable cfg w'"
| remove: "reachable cfg w \<Longrightarrow> colonFree gid \<Longrightarrow>
           \<forall>ids. db_get (getGroupIndexKey gid) w = Some (VIds ids) \<longrightarrow> ident \<in> set ids
                   \<longrightarrow> set ids = {ident} \<Longrightarrow>
           deleteInstance cfg gid ident w = Returns (st, w') \<Longrightarrow> reachable cfg w'"
| sweep: "reachable cfg w \<Longrightarrow> disposeExpired cfg w = Returns w' \<Longrightarrow> reachable cfg w'"



section \<open>Basic facts\<close>

lemma await_simps [simp]:
  "await (Returns x) f = f x"
  "await (Throws e) f = Throws e"
  "await Hangs f = Hangs"
  by (simp_all add: await_def)

lemma await_Returns:
  "await m f = Returns y \<longleftrightarrow> (\<exists>x. m = Returns x \<and> f x = Returns y)"
  by (cases m) simp_all

lemmas key_defs = getInstanceKey_def getGroupKey_def getGroupIndexKey_def listIndexKey_def

lemmas lock_defs = aquireLock_def releaseLock_def aquireListIndexLock_def
  releaseListIndexLock_def aquireGroupLock_def releaseGroupLock_def

lemmas store_defs = db_get_def db_set_def db_del_def db_exists_def now_def sleep_def

lemma sleep_funpow: "(sleep d ^^ k) w = w\<lparr>clock := clock w + int k * d\<rparr>"
  by (induction k arbitrary: w) (simp_all add: sleep_def algebra_simps)

section \<open>The mutex\<close>

lemma loop_free: "mutexFree cfg name w \<Longrightarrow> aquireLock_loop cfg name w = Some w"
  by (subst aquireLock_loop.simps) (auto simp: mutexFree_def split: option.splits)

lemma loop_wait:
  "\<not> mutexFree cfg name w \<Longrightarrow>
   aquireLock_loop cfg name w = aquireLock_loop cfg name (sleep (mutexTimeout cfg div 25) w)"
  by (subst aquireLock_loop.simps) (auto simp: mutexFree_def split: option.splits)

text \<open>
  A run of the loop that ends has slept some number \<open>n\<close> of times, found the mutex
  taken before each sleep and free after the last. Induction over the fixpoint that
  defines the loop.
\<close>

lemma loop_polls:
  assumes "aquireLock_loop cfg name w = Some w'"
  shows "\<exists>n. w' = (sleep (mutexTimeout cfg div 25) ^^ n) w \<and> mutexFree cfg name w'
           \<and> (\<forall>k<n. \<not> mutexFree cfg name ((sleep (mutexTimeout cfg div 25) ^^ k) w))"
  using assms
proof (induct rule: aquireLock_loop.raw_induct[rotated 1, consumes 1])
  case (1 f cfg name w y)
  let ?d = "mutexTimeout cfg div 25"
  show ?case
  proof (cases "mutexFree cfg name w")
    case True
    with 1(2) have "y = w"
      by (auto simp: mutexFree_def split: option.splits if_splits)
    with True show ?thesis
      by (intro exI[of _ 0]) simp
  next
    case False
    with 1(2) have "f cfg name (sleep ?d w) = Some y"
      by (auto simp: mutexFree_def split: option.splits if_splits)
    from 1(1)[OF this] obtain n where n:
      "y = (sleep ?d ^^ n) (sleep ?d w)" "mutexFree cfg name y"
      "\<forall>k<n. \<not> mutexFree cfg name ((sleep ?d ^^ k) (sleep ?d w))"
      by blast
    have "\<forall>k<Suc n. \<not> mutexFree cfg name ((sleep ?d ^^ k) w)"
    proof (intro allI impI)
      fix k assume "k < Suc n"
      show "\<not> mutexFree cfg name ((sleep ?d ^^ k) w)"
      proof (cases k)
        case 0
        with False show ?thesis by simp
      next
        case (Suc j)
        with \<open>k < Suc n\<close> n(3) show ?thesis
          by (simp add: funpow_swap1)
      qed
    qed
    with n(1,2) show ?thesis
      by (intro exI[of _ "Suc n"]) (simp add: funpow_swap1)
  qed
qed

text \<open>
  The loop does end when each sleep lasts at least a millisecond and the key holds a
  number or nothing: the time left until the holder's timestamp is too old shrinks
  with every round.
\<close>

lemma loop_terminates:
  assumes d: "25 \<le> mutexTimeout cfg"
    and v: "db_get (''mutex:'' @ name) w = None
            \<or> (\<exists>start. db_get (''mutex:'' @ name) w = Some (VNum start))"
  shows "\<exists>w'. aquireLock_loop cfg name w = Some w'"
proof (cases "db_get (''mutex:'' @ name) w")
  case None
  then show ?thesis by (simp add: loop_free mutexFree_def)
next
  case (Some m)
  with v obtain start where s: "db_get (''mutex:'' @ name) w = Some (VNum start)" by auto
  have "\<And>w. db_get (''mutex:'' @ name) w = Some (VNum start) \<Longrightarrow>
           nat (start + mutexTimeout cfg + 1 - now w) = n \<Longrightarrow>
           \<exists>w'. aquireLock_loop cfg name w = Some w'" for n
  proof (induction n rule: less_induct)
    case (less n)
    show ?case
    proof (cases "mutexFree cfg name w")
      case True
      then show ?thesis by (simp add: loop_free)
    next
      case False
      let ?w = "sleep (mutexTimeout cfg div 25) w"
      from False less(2) have le: "now w \<le> start + mutexTimeout cfg"
        by (simp add: mutexFree_def parseInt_def)
      from d have pos: "0 < mutexTimeout cfg div 25"
        by (simp add: pos_imp_zdiv_pos_iff)
      have g: "db_get (''mutex:'' @ name) ?w = Some (VNum start)"
        using less(2) by (simp add: db_get_def sleep_def)
      have "nat (start + mutexTimeout cfg + 1 - now ?w) < n"
        using less(3) le pos by (simp add: now_def sleep_def)
      from less(1)[OF this g refl] show ?thesis
        by (simp add: loop_wait[OF False])
    qed
  qed
  from this[OF s refl] show ?thesis .
qed

lemma aquireLock_free:
  "mutexFree cfg name w \<Longrightarrow>
   aquireLock cfg name w = Returns (db_set (''mutex:'' @ name) (VNum (now w)) w)"
  by (simp add: aquireLock_def loop_free)

lemma aquireLock_Returns:
  assumes "aquireLock cfg name w = Returns w'"
  shows "\<exists>c. w' = db_set (''mutex:'' @ name) (VNum c) (w\<lparr>clock := c\<rparr>)"
proof -
  from assms obtain w1 where l: "aquireLock_loop cfg name w = Some w1"
    and w': "w' = db_set (''mutex:'' @ name) (VNum (now w1)) w1"
    by (auto simp: aquireLock_def split: option.splits)
  from loop_polls[OF l] obtain n where "w1 = (sleep (mutexTimeout cfg div 25) ^^ n) w"
    by blast
  then have "w1 = w\<lparr>clock := now w1\<rparr>"
    by (simp add: sleep_funpow now_def)
  with w' show ?thesis by metis
qed

lemma aquireLock_total:
  assumes "25 \<le> mutexTimeout cfg"
    and "db_get (''mutex:'' @ name) w = None
         \<or> (\<exists>start. db_get (''mutex:'' @ name) w = Some (VNum start))"
  shows "\<exists>w'. aquireLock cfg name w = Returns w'"
  using loop_terminates[OF assms] by (auto simp: aquireLock_def)

text \<open>
  C4. Whenever \<open>aquireLock\<close> returns, it has gone round its loop some number \<open>n\<close> of
  times, sleeping \<open>mutexTimeout / 25\<close> each time. In the world after the \<open>n\<close>-th sleep
  the key \<open>mutex:name\<close> was absent or held a timestamp older than \<open>mutexTimeout\<close>
  (strictly: \<open>start + mutexTimeout < now\<close>); in the world of every earlier round the
  key was present and its value was no timestamp that old, so the loop slept and tried
  again; and the world returned is that of the last round with the time of that
  round written under \<open>mutex:name\<close>.
\<close>

theorem aquireLock_polls_until_free:
  assumes "aquireLock cfg name w = Returns w'"
  shows "\<exists>n. (db_get (''mutex:'' @ name) ((sleep (mutexTimeout cfg div 25) ^^ n) w) = None
             \<or> (\<exists>start. db_get (''mutex:'' @ name) ((sleep (mutexTimeout cfg div 25) ^^ n) w)
                           = Some (VNum start)
                  \<and> start + mutexTimeout cfg < now ((sleep (mutexTimeout cfg div 25) ^^ n) w)))
          \<and> (\<forall>k<n. \<exists>mutex.
                 db_get (''mutex:'' @ name) ((sleep (mutexTimeout cfg div 25) ^^ k) w) = Some mutex
                 \<and> (\<forall>start. mutex = VNum start \<longrightarrow>
                       now ((sleep (mutexTimeout cfg div 25) ^^ k) w) \<le> start + mutexTimeout cfg))
          \<and> w' = db_set (''mutex:'' @ name)
                   (VNum (now ((sleep (mutexTimeout cfg div 25) ^^ n) w)))
                   ((sleep (mutexTimeout cfg div 25) ^^ n) w)"
proof -
  let ?d = "mutexTimeout cfg div 25"
  from assms obtain w1 where l: "aquireLock_loop cfg name w = Some w1"
    and w': "w' = db_set (''mutex:'' @ name) (VNum (now w1)) w1"
    by (auto simp: aquireLock_def split: option.splits)
  from loop_polls[OF l] obtain n where n: "w1 = (sleep ?d ^^ n) w" "mutexFree cfg name w1"
    "\<forall>k<n. \<not> mutexFree cfg name ((sleep ?d ^^ k) w)"
    by blast
  have free: "db_get (''mutex:'' @ name) w1 = None
     \<or> (\<exists>start. db_get (''mutex:'' @ name) w1 = Some (VNum start)
          \<and> start + mutexTimeout cfg < now w1)"
    using n(2) by (auto simp: mutexFree_def parseInt_def split: option.splits val.splits)
  have busy: "\<exists>mutex. db_get (''mutex:'' @ name) ((sleep ?d ^^ k) w) = Some mutex
                 \<and> (\<forall>start. mutex = VNum start \<longrightarrow>
                       now ((sleep ?d ^^ k) w) \<le> start + mutexTimeout cfg)"
    if "k < n" for k
    using n(3) that
    by (fastforce simp: mutexFree_def parseInt_def split: option.splits val.splits)
  from free busy w' n(1) show ?thesis
    by (intro exI[of _ n]) blast
qed

text \<open>
  With the repository's configuration (\<open>mutexTimeout\<close> 2000, so 80 ms a sleep) and the
  lock taken at 1000, a caller arriving at 2900 sleeps twice and claims it at 3060.
\<close>

lemma heldWorld_run:
  "aquireLock config ''groups'' heldWorld
     = Returns (db_set ''mutex:groups'' (VNum 3060) (sleep 80 (sleep 80 heldWorld)))"
  by (simp add: aquireLock_def loop_wait loop_free mutexFree_def heldWorld_def emptyWorld_def
      config_def parseInt_def store_defs)

theorem aquireLock_polls_until_free_witness:
  "aquireLock config ''groups'' heldWorld
     = Returns (db_set ''mutex:groups'' (VNum 3060) (sleep 80 (sleep 80 heldWorld)))
   \<and> (\<exists>n. (db_get ''mutex:groups'' ((sleep 80 ^^ n) heldWorld) = None
             \<or> (\<exists>start. db_get ''mutex:groups'' ((sleep 80 ^^ n) heldWorld) = Some (VNum start)
                  \<and> start + 2000 < now ((sleep 80 ^^ n) heldWorld)))
          \<and> (\<forall>k<n. \<exists>mutex.
                 db_get ''mutex:groups'' ((sleep 80 ^^ k) heldWorld) = Some mutex
                 \<and> (\<forall>start. mutex = VNum start \<longrightarrow>
                       now ((sleep 80 ^^ k) heldWorld) \<le> start + 2000))
          \<and> db_set ''mutex:groups'' (VNum 3060) (sleep 80 (sleep 80 heldWorld))
              = db_set ''mutex:groups'' (VNum (now ((sleep 80 ^^ n) heldWorld)))
                   ((sleep 80 ^^ n) heldWorld))"
  using aquireLock_polls_until_free[OF heldWorld_run] heldWorld_run
  by (simp add: config_def)

section \<open>The key space\<close>

text \<open>
  C10. The key mapping is not injective across entities. An instance key joins group id
  and instance id with a colon, so moving a colon-separated part from the one to the
  other gives the same key for a different pair; and the record key of the group
  \<open>g:instances\<close> is the index key of the group \<open>g\<close>.
\<close>

theorem key_space_aliases:
  "getInstanceKey (g @ '':'' @ x) i = getInstanceKey g (x @ '':'' @ i)
   \<and> (g @ '':'' @ x, i) \<noteq> (g, x @ '':'' @ i)
   \<and> CHR '':'' \<in> set (g @ '':'' @ x) \<and> CHR '':'' \<in> set (x @ '':'' @ i)
   \<and> getGroupKey (g @ '':instances'') = getGroupIndexKey g
   \<and> g @ '':instances'' \<noteq> g"
  by (simp add: getInstanceKey_def getGroupKey_def getGroupIndexKey_def)

section \<open>Removing an instance\<close>

lemmas handler_defs = handle_def postInstance_def deleteInstance_def addInstance_def addGroup_def
  removeInstance_def removeGroup_def alterListIndex_def getList_def hasLength_def

text \<open>
  When the index lists another id beside the one removed, \<open>removeInstance\<close> deletes the
  record and returns: the filtered list is only tested for emptiness, never stored.
\<close>

lemma removeInstance_keeps_index:
  assumes "db_get (getGroupIndexKey gid) w = Some (VIds ids)" "other \<in> set ids" "other \<noteq> ident"
  shows "removeInstance cfg gid ident w = Returns (db_del (getInstanceKey gid ident) w)"
proof -
  have "db_get (getGroupIndexKey gid) (db_del (getInstanceKey gid ident) w) = Some (VIds ids)"
    using assms(1) by (simp add: store_defs key_defs)
  moreover have "filter (\<lambda>item. item \<noteq> ident) ids \<noteq> []"
    using assms(2,3) by (auto simp: filter_empty_conv)
  ultimately show ?thesis
    by (simp add: removeInstance_def Let_def)
qed

text \<open>
  C1. The claim asks \<open>removeInstance\<close> to write the index back without the removed id.
  The source filters the list and then stores nothing: after two instances \<open>a\<close> and
  \<open>b\<close> were added to group \<open>g\<close>, removing \<open>a\<close> deletes its record and leaves the
  index \<open>[a, b]\<close> as it was.
\<close>

theorem removeInstance_does_not_prune_index:
  "\<exists>w0. serve config [(0, POST ''g'' ''a'' ''{}''), (0, POST ''g'' ''b'' ''{}'')] (emptyWorld 1000)
          = Returns w0
     \<and> db_get (getGroupIndexKey ''g'') w0 = Some (VIds [''a'', ''b''])
     \<and> removeInstance config ''g'' ''a'' w0 = Returns (db_del (getInstanceKey ''g'' ''a'') w0)
     \<and> db_get (getGroupIndexKey ''g'') (db_del (getInstanceKey ''g'' ''a'') w0)
         = Some (VIds [''a'', ''b''])"
  by (simp add: handler_defs emptyWorld_def config_def lock_defs key_defs store_defs loop_free
      mutexFree_def Let_def)


section \<open>The global list\<close>

text \<open>
  On a list that is not empty, \<open>alterListIndex\<close> appends the additions and then filters
  out the removals.
\<close>

lemma alterListIndex_existing:
  assumes "getList w = VIds gs" "gs \<noteq> []"
  shows "alterListIndex add remove w =
           db_set listIndexKey
             (VIds (filter (\<lambda>gid. gid \<notin> set (case remove of None \<Rightarrow> [] | Some r \<Rightarrow> r))
                      (gs @ (case add of None \<Rightarrow> [] | Some a \<Rightarrow> a)))) w"
  using assms
  by (cases gs) (auto simp: alterListIndex_def hasLength_def Let_def split: option.splits)

lemma alterListIndex_fresh:
  assumes "getList w = VIds []" "a \<noteq> []"
  shows "db_get listIndexKey (alterListIndex (Some a) remove w) = Some (VIds a)"
  using assms by (simp add: alterListIndex_def hasLength_def Let_def store_defs)

text \<open>
  C2. The claim asks that removals are applied after additions for every state of the
  list. On an absent (or empty) list the source takes the branch that creates the list
  from \<open>add\<close> and never looks at \<open>remove\<close>: adding and removing \<open>g\<close> at once writes
  \<open>[g]\<close>. On the list \<open>[h]\<close> the same call writes \<open>[h]\<close>: there removal wins.
\<close>

theorem alterListIndex_new_list_keeps_removed_id:
  "getList (emptyWorld 0) = VIds []
   \<and> db_get listIndexKey (alterListIndex (Some [''g'']) (Some [''g'']) (emptyWorld 0))
       = Some (VIds [''g''])
   \<and> db_get listIndexKey
        (alterListIndex (Some [''g'']) (Some [''g''])
           (db_set listIndexKey (VIds [''h'']) (emptyWorld 0)))
       = Some (VIds [''h''])"
  by (simp add: alterListIndex_def getList_def hasLength_def emptyWorld_def key_defs store_defs
      Let_def)



section \<open>The handler of DELETE\<close>



section \<open>The sweep of one group\<close>

lemmas sweep_defs = disposeExpired_def shouldGC_def tooSoon_def sweepGroup_def sweepInstance_def
  alive_def removeMarked_def alterListIndex_def getList_def hasLength_def parseInt_def

lemma sweepInstance_cases:
  "sweepInstance cfg t gid x (w, ids) =
     (if survives cfg t gid w x then (w, ids)
      else (db_del (getInstanceKey gid x) w, filter (\<lambda>item. item \<noteq> x) ids))"
  by (simp add: sweepInstance_def survives_def Let_def split: option.splits)

lemma survives_db_del:
  "survives cfg t gid (db_del (getInstanceKey gid x) w) i = (i = x \<or> survives cfg t gid w i)"
  by (simp add: survives_def store_defs key_defs)

text \<open>
  The scan of an index \<open>xs\<close>, started on the store \<open>w\<close> and the copy \<open>ids\<close>: the copy
  loses the ids of \<open>xs\<close> that do not survive, the store loses their records. An id
  listed twice is dropped at its first visit and found without a record at the second.
\<close>

lemma fold_sweepInstance_ids:
  "snd (fold (sweepInstance cfg t gid) xs (w, ids))
     = filter (\<lambda>i. i \<notin> set xs \<or> survives cfg t gid w i) ids"
proof (induction xs arbitrary: w ids)
  case Nil
  then show ?case by simp
next
  case (Cons x xs)
  show ?case
  proof (cases "survives cfg t gid w x")
    case True
    have "filter (\<lambda>i. i \<notin> set xs \<or> survives cfg t gid w i) ids
            = filter (\<lambda>i. i \<notin> set (x # xs) \<or> survives cfg t gid w i) ids"
      using True by (intro filter_cong) auto
    with True Cons.IH[of w ids] show ?thesis
      by (simp add: sweepInstance_cases)
  next
    case False
    have "filter (\<lambda>i. i \<notin> set xs \<or> survives cfg t gid (db_del (getInstanceKey gid x) w) i)
             (filter (\<lambda>item. item \<noteq> x) ids)
            = filter (\<lambda>i. i \<notin> set (x # xs) \<or> survives cfg t gid w i) ids"
      using False unfolding filter_filter survives_db_del
      by (intro filter_cong) auto
    with False Cons.IH[of "db_del (getInstanceKey gid x) w" "filter (\<lambda>item. item \<noteq> x) ids"]
    show ?thesis
      by (simp add: sweepInstance_cases)
  qed
qed

lemma fold_sweepInstance_db:
  "db_get k (fst (fold (sweepInstance cfg t gid) xs (w, ids)))
     = (if \<exists>i\<in>set xs. k = getInstanceKey gid i \<and> \<not> survives cfg t gid w i then None
        else db_get k w)"
proof (induction xs arbitrary: w ids)
  case Nil
  then show ?case by simp
next
  case (Cons x xs)
  show ?case
  proof (cases "survives cfg t gid w x")
    case True
    with Cons.IH[of w ids] show ?thesis
      by (auto simp: sweepInstance_cases)
  next
    case False
    have "db_get k (db_del (getInstanceKey gid x) w)
            = (if k = getInstanceKey gid x then None else db_get k w)"
      by (simp add: store_defs)
    with False Cons.IH[of "db_del (getInstanceKey gid x) w" "filter (\<lambda>item. item \<noteq> x) ids"]
    show ?thesis
      by (auto simp: sweepInstance_cases survives_db_del)
  qed
qed

lemma fold_sweepInstance_clock:
  "clock (fst (fold (sweepInstance cfg t gid) xs (w, ids))) = clock w"
  by (induction xs arbitrary: w ids) (simp_all add: sweepInstance_cases db_del_def)


lemma survives_lock:
  "survives cfg t gid (db_set (''mutex:'' @ name) v (w\<lparr>clock := c\<rparr>)) i = survives cfg t gid w i"
  by (simp add: survives_def store_defs key_defs)

lemma sweepGroup_Returns:
  assumes "sweepGroup cfg t gid (w, marked) = Returns (w', marked')"
    and "db_get (getGroupIndexKey gid) w = Some (VIds ids0)"
  shows "\<exists>w1. aquireGroupLock cfg gid w = Returns w1
           \<and> (if snd (fold (sweepInstance cfg t gid) ids0 (w1, ids0)) = []
               then w' = fst (fold (sweepInstance cfg t gid) ids0 (w1, ids0))
                    \<and> marked' = marked @ [gid]
               else w' = db_set (getGroupIndexKey gid)
                           (VIds (snd (fold (sweepInstance cfg t gid) ids0 (w1, ids0))))
                           (fst (fold (sweepInstance cfg t gid) ids0 (w1, ids0)))
                    \<and> marked' = marked)"
proof -
  from assms(1) obtain w1 where l: "aquireGroupLock cfg gid w = Returns w1"
    by (auto simp: sweepGroup_def Let_def await_Returns)
  then obtain c where w1: "w1 = db_set (''mutex:'' @ getGroupIndexKey gid) (VNum c) (w\<lparr>clock := c\<rparr>)"
    unfolding aquireGroupLock_def by (blast dest: aquireLock_Returns)
  have "db_get (getGroupIndexKey gid) w1 = Some (VIds ids0)"
    using assms(2) unfolding w1 by (simp add: store_defs key_defs)
  with assms(1) l show ?thesis
    by (auto simp: sweepGroup_def Let_def split: if_splits)
qed

lemma sweepGroup_survivors:
  assumes "aquireGroupLock cfg gid w = Returns w1"
  shows "snd (fold (sweepInstance cfg t gid) ids0 (w1, ids0)) = filter (survives cfg t gid w) ids0"
    and "db_get (getInstanceKey gid i) (fst (fold (sweepInstance cfg t gid) ids0 (w1, ids0)))
           = (if i \<in> set ids0 \<and> \<not> survives cfg t gid w i then None
              else db_get (getInstanceKey gid i) w)"
proof -
  from assms obtain c where w1: "w1 = db_set (''mutex:'' @ getGroupIndexKey gid) (VNum c) (w\<lparr>clock := c\<rparr>)"
    unfolding aquireGroupLock_def by (blast dest: aquireLock_Returns)
  show "snd (fold (sweepInstance cfg t gid) ids0 (w1, ids0)) = filter (survives cfg t gid w) ids0"
    unfolding fold_sweepInstance_ids w1 survives_lock
    by (intro filter_cong) auto
  have "db_get (getInstanceKey gid i) w1 = db_get (getInstanceKey gid i) w"
    unfolding w1 by (simp add: store_defs key_defs)
  moreover have "(\<exists>j\<in>set ids0. getInstanceKey gid i = getInstanceKey gid j \<and> \<not> survives cfg t gid w j)
      \<longleftrightarrow> (i \<in> set ids0 \<and> \<not> survives cfg t gid w i)"
    by (auto simp: key_defs)
  ultimately show "db_get (getInstanceKey gid i) (fst (fold (sweepInstance cfg t gid) ids0 (w1, ids0)))
           = (if i \<in> set ids0 \<and> \<not> survives cfg t gid w i then None
              else db_get (getInstanceKey gid i) w)"
    unfolding fold_sweepInstance_db w1 survives_lock by simp
qed

text \<open>
  C3, as the code has it. The claim asks the sweep to drop an id whose record is
  absent. The test of the source is \<open>!instance || ...\<close> with the comment \<open>alive\<close>:
  an id without a record is skipped. So whenever the sweep of a group returns and
  the index lists an id with no record, that id survives: the group is not marked for
  removal, nothing is stored under the id's instance key afterwards either, and the
  index written back lists exactly the ids of the old index whose record is absent or
  passes the liveness test, this id among them.
\<close>

theorem sweep_keeps_id_without_record:
  assumes ret: "sweepGroup cfg t gid (w, marked) = Returns (w', marked')"
    and idx: "db_get (getGroupIndexKey gid) w = Some (VIds ids0)"
    and mem: "ident \<in> set ids0"
    and absent: "db_get (getInstanceKey gid ident) w = None"
  shows "marked' = marked
    \<and> db_get (getInstanceKey gid ident) w' = None
    \<and> db_get (getGroupIndexKey gid) w'
        = Some (VIds (filter (\<lambda>i. case db_get (getInstanceKey gid i) w of
                                     None \<Rightarrow> True | Some v \<Rightarrow> alive cfg t v) ids0))
    \<and> ident \<in> set (filter (\<lambda>i. case db_get (getInstanceKey gid i) w of
                                     None \<Rightarrow> True | Some v \<Rightarrow> alive cfg t v) ids0)"
proof -
  let ?r = "\<lambda>w1. fold (sweepInstance cfg t gid) ids0 (w1, ids0)"
  from sweepGroup_Returns[OF ret idx] obtain w1 where l: "aquireGroupLock cfg gid w = Returns w1"
    and r: "if snd (?r w1) = [] then w' = fst (?r w1) \<and> marked' = marked @ [gid]
            else w' = db_set (getGroupIndexKey gid) (VIds (snd (?r w1))) (fst (?r w1))
                 \<and> marked' = marked"
    by blast
  have s: "survives cfg t gid w ident"
    using absent by (simp add: survives_def)
  have ids: "snd (?r w1) = filter (survives cfg t gid w) ids0"
    by (rule sweepGroup_survivors(1)[OF l])
  have ne: "snd (?r w1) \<noteq> []"
    unfolding ids using mem s by (auto simp: filter_empty_conv)
  with r have w': "w' = db_set (getGroupIndexKey gid) (VIds (snd (?r w1))) (fst (?r w1))"
    and m: "marked' = marked"
    by simp_all
  have "db_get (getInstanceKey gid ident) w' = db_get (getInstanceKey gid ident) (fst (?r w1))"
    unfolding w' by (simp add: store_defs key_defs)
  also have "\<dots> = None"
    unfolding sweepGroup_survivors(2)[OF l] using absent by simp
  finally have rec: "db_get (getInstanceKey gid ident) w' = None" .
  have f: "filter (survives cfg t gid w) ids0
           = filter (\<lambda>i. case db_get (getInstanceKey gid i) w of
                            None \<Rightarrow> True | Some v \<Rightarrow> alive cfg t v) ids0"
    by (intro filter_cong) (simp_all add: survives_def)
  have "db_get (getGroupIndexKey gid) w' = Some (VIds (filter (survives cfg t gid w) ids0))"
    unfolding w' ids by (simp add: store_defs)
  with m rec mem absent f show ?thesis
    by simp
qed

text \<open>
  In \<open>staleWorld\<close> the sweep of group \<open>g\<close> at time 100000 takes the group lock and
  writes the index \<open>[a]\<close> back.
\<close>

lemma staleWorld_sweepGroup:
  "sweepGroup config 100000 ''g'' (staleWorld, [])
     = Returns (db_set ''group:g:instances'' (VIds [''a''])
                 (db_set ''mutex:group:g:instances'' (VNum 100000) staleWorld), [])"
  by (simp add: sweep_defs staleWorld_def emptyWorld_def config_def lock_defs key_defs store_defs
      loop_free mutexFree_def Let_def)

theorem sweep_keeps_id_without_record_witness:
  "sweepGroup config 100000 ''g'' (staleWorld, [])
     = Returns (db_set ''group:g:instances'' (VIds [''a''])
                 (db_set ''mutex:group:g:instances'' (VNum 100000) staleWorld), [])
   \<and> db_get (getGroupIndexKey ''g'') staleWorld = Some (VIds [''a''])
   \<and> ''a'' \<in> set [''a'']
   \<and> db_get (getInstanceKey ''g'' ''a'') staleWorld = None
   \<and> db_get (getGroupIndexKey ''g'')
        (db_set ''group:g:instances'' (VIds [''a''])
                 (db_set ''mutex:group:g:instances'' (VNum 100000) staleWorld))
       = Some (VIds [''a''])"
proof -
  have idx: "db_get (getGroupIndexKey ''g'') staleWorld = Some (VIds [''a''])"
    by (simp add: staleWorld_def key_defs store_defs)
  have mem: "''a'' \<in> set [''a'']" by simp
  have absent: "db_get (getInstanceKey ''g'' ''a'') staleWorld = None"
    by (simp add: staleWorld_def emptyWorld_def key_defs store_defs)
  from sweep_keeps_id_without_record[OF staleWorld_sweepGroup idx mem absent]
  have "db_get (getGroupIndexKey ''g'')
        (db_set ''group:g:instances'' (VIds [''a''])
                 (db_set ''mutex:group:g:instances'' (VNum 100000) staleWorld))
       = Some (VIds [''a''])"
    using absent by simp
  with staleWorld_sweepGroup idx mem absent show ?thesis by blast
qed


text \<open>
  C3, as the claim states it, fails: a whole sweep of \<open>staleWorld\<close> leaves \<open>a\<close> in the
  index of \<open>g\<close> and \<open>g\<close> in the list of groups. Such an index is reached from the
  empty store: after upserts of \<open>g/a\<close> and \<open>g/b\<close> and the removal of \<open>g/a\<close> the
  record of \<open>a\<close> is gone and the index still lists it (C1), and the sweep run by
  \<open>GET /g\<close> a second later writes \<open>[a, b]\<close> back.
\<close>

theorem sweep_drops_id_without_record_counterexample:
  "db_get (getGroupIndexKey ''g'') staleWorld = Some (VIds [''a''])
   \<and> db_get (getInstanceKey ''g'' ''a'') staleWorld = None
   \<and> map_outcome (db_get (getGroupIndexKey ''g'')) (disposeExpired config staleWorld)
       = Returns (Some (VIds [''a'']))
   \<and> map_outcome getList (disposeExpired config staleWorld) = Returns (VIds [''g''])
   \<and> map_outcome (db_get (getInstanceKey ''g'' ''a''))
         (serve config [(0, POST ''g'' ''a'' ''{}''), (0, POST ''g'' ''b'' ''{}''),
                        (0, DELETE ''g'' ''a'')] (emptyWorld 100000))
       = Returns None
   \<and> map_outcome gcCounter
         (serve config [(0, POST ''g'' ''a'' ''{}''), (0, POST ''g'' ''b'' ''{}''),
                        (0, DELETE ''g'' ''a''), (1000, GET ''g'')] (emptyWorld 100000))
       = Returns 1
   \<and> map_outcome (db_get (getGroupIndexKey ''g''))
         (serve config [(0, POST ''g'' ''a'' ''{}''), (0, POST ''g'' ''b'' ''{}''),
                        (0, DELETE ''g'' ''a''), (1000, GET ''g'')] (emptyWorld 100000))
       = Returns (Some (VIds [''a'', ''b'']))"
  by (simp add: handler_defs getGroup_def sweep_defs staleWorld_def emptyWorld_def config_def
      lock_defs key_defs store_defs loop_free mutexFree_def Let_def)



section \<open>The handler of POST\<close>

text \<open>Reading the store after a write, a delete or a move of the clock.\<close>

lemma db_get_db_set: "db_get k (db_set k' v w) = (if k = k' then Some v else db_get k w)"
  by (simp add: db_get_def db_set_def)

lemma db_get_db_del: "db_get k (db_del k' w) = (if k = k' then None else db_get k w)"
  by (simp add: db_get_def db_del_def)

lemma db_get_clock [simp]: "db_get k (w\<lparr>clock := c\<rparr>) = db_get k w"
  by (simp add: db_get_def)

lemma now_db_set [simp]: "now (db_set k v w) = now w"
  by (simp add: now_def db_set_def)

lemma now_db_del [simp]: "now (db_del k w) = now w"
  by (simp add: now_def db_del_def)

text \<open>
  \<open>alterListIndex\<close> touches the key \<open>groups\<close> only; \<open>addGroup\<close> touches the list
  mutex, the group's record, the group's index and the list.
\<close>

lemma alterListIndex_frame:
  "alterListIndex add remove w = w\<lparr>db := (db w)(listIndexKey \<mapsto> the (db_get listIndexKey (alterListIndex add remove w)))\<rparr>"
  by (simp add: alterListIndex_def Let_def store_defs split: val.splits list.splits)

lemma alterListIndex_other:
  "k \<noteq> listIndexKey \<Longrightarrow> db_get k (alterListIndex add remove w) = db_get k w"
  by (subst alterListIndex_frame) (simp add: store_defs)

lemma alterListIndex_clock [simp]: "clock (alterListIndex add remove w) = clock w"
  by (subst alterListIndex_frame) simp

lemma addGroup_other:
  assumes "addGroup cfg gid ident w = Returns w'"
    and "k \<noteq> ''mutex:'' @ listIndexKey" "k \<noteq> getGroupKey gid" "k \<noteq> getGroupIndexKey gid"
        "k \<noteq> listIndexKey"
  shows "db_get k w' = db_get k w"
proof -
  from assms(1) obtain w1 where l: "aquireLock cfg listIndexKey w = Returns w1"
    and w': "w' = releaseListIndexLock (alterListIndex (Some [gid]) None
               (db_set (getGroupIndexKey gid) (VIds [ident])
                 (db_set (getGroupKey gid)
                    (VGrp \<lparr>g_group = gid, g_createdAt = now w, g_lastUpdatedAt = now w\<rparr>) w1)))"
    by (auto simp: addGroup_def Let_def await_Returns aquireListIndexLock_def)
  from aquireLock_Returns[OF l] obtain c where
    w1: "w1 = db_set (''mutex:'' @ listIndexKey) (VNum c) (w\<lparr>clock := c\<rparr>)"
    by blast
  have "db_get k w' = db_get k w1"
    unfolding w' releaseListIndexLock_def releaseLock_def
    using assms(2-) by (simp add: db_get_db_del db_get_db_set alterListIndex_other)
  also have "\<dots> = db_get k w"
    unfolding w1 using assms(2) by (simp add: db_get_db_set)
  finally show ?thesis .
qed

text \<open>
  C8. A heartbeat: a \<open>POST\<close> for a pair whose instance record exists. Whenever the
  handler returns, it had taken the group lock in some world \<open>w1\<close>, whose clock is the
  \<open>Date.now()\<close> of the update; it echoes the payload; and the instance record is the
  old one with \<open>updatedAt\<close> set to that time (id, group, createdAt and meta as they
  were). If a group record is stored for the group, it is afterwards the old record
  with \<open>lastUpdatedAt\<close> set to the same time, the clock has not moved since, the group
  mutex is released, and every other key of the store reads as before.
\<close>

theorem heartbeat_refreshes_timestamps:
  assumes ret: "postInstance cfg gid ident payload w = Returns (body, w')"
    and inst: "db_get (getInstanceKey gid ident) w = Some (VInst inst)"
  shows "\<exists>w1. aquireGroupLock cfg gid w = Returns w1
     \<and> body = payload
     \<and> db_get (getInstanceKey gid ident) w' = Some (VInst (inst\<lparr>i_updatedAt := now w1\<rparr>))
     \<and> (\<forall>grp. db_get (getGroupKey gid) w = Some (VGrp grp) \<longrightarrow>
           db_get (getGroupKey gid) w' = Some (VGrp (grp\<lparr>g_lastUpdatedAt := now w1\<rparr>))
           \<and> now w' = now w1
           \<and> db_get (''mutex:'' @ getGroupIndexKey gid) w' = None
           \<and> (\<forall>k. k \<noteq> getInstanceKey gid ident \<and> k \<noteq> getGroupKey gid
                     \<and> k \<noteq> ''mutex:'' @ getGroupIndexKey gid \<longrightarrow>
                  db_get k w' = db_get k w))"
proof -
  let ?ikey = "getInstanceKey gid ident"
  let ?gkey = "getGroupKey gid"
  let ?mkey = "''mutex:'' @ getGroupIndexKey gid"
  from ret obtain w1 where l: "aquireGroupLock cfg gid w = Returns w1"
    by (auto simp: postInstance_def Let_def await_Returns)
  then obtain c where w1: "w1 = db_set ?mkey (VNum c) (w\<lparr>clock := c\<rparr>)"
    unfolding aquireGroupLock_def by (blast dest: aquireLock_Returns)
  have i1: "db_get ?ikey w1 = Some (VInst inst)"
    unfolding w1 using inst by (simp add: store_defs key_defs)
  have g1: "db_get ?gkey w1 = db_get ?gkey w"
    unfolding w1 by (simp add: store_defs key_defs)
  define w2 where "w2 = db_set ?ikey (VInst (inst\<lparr>i_updatedAt := now w1\<rparr>)) w1"
  from ret l i1 obtain w3 where
    t2: "(case db_get ?gkey w1 of
            None \<Rightarrow> addGroup cfg gid ident w2
          | Some (VGrp grp) \<Rightarrow> Returns (db_set ?gkey (VGrp (grp\<lparr>g_lastUpdatedAt := now w1\<rparr>)) w2)
          | Some (VIds xs) \<Rightarrow> Returns (db_set ?gkey (VIds xs) w2)
          | Some _ \<Rightarrow> Throws Unrepresentable) = Returns w3"
    and fin: "body = payload" "w' = releaseGroupLock gid w3"
    unfolding postInstance_def Let_def w2_def
    by (auto simp: await_Returns)
  have i3: "db_get ?ikey w3 = Some (VInst (inst\<lparr>i_updatedAt := now w1\<rparr>))"
  proof (cases "db_get ?gkey w1")
    case None
    with t2 have "addGroup cfg gid ident w2 = Returns w3" by simp
    from addGroup_other[OF this, of ?ikey] have "db_get ?ikey w3 = db_get ?ikey w2"
      by (simp add: key_defs)
    then show ?thesis by (simp add: w2_def store_defs)
  next
    case (Some v)
    with t2 show ?thesis
      by (cases v) (auto simp: w2_def store_defs key_defs)
  qed
  have i': "db_get ?ikey w' = Some (VInst (inst\<lparr>i_updatedAt := now w1\<rparr>))"
    unfolding fin(2) releaseGroupLock_def releaseLock_def using i3
    by (simp add: store_defs key_defs)
  have grp_case: "db_get ?gkey w' = Some (VGrp (grp\<lparr>g_lastUpdatedAt := now w1\<rparr>))
           \<and> now w' = now w1
           \<and> db_get ?mkey w' = None
           \<and> (\<forall>k. k \<noteq> ?ikey \<and> k \<noteq> ?gkey \<and> k \<noteq> ?mkey \<longrightarrow> db_get k w' = db_get k w)"
    if g: "db_get ?gkey w = Some (VGrp grp)" for grp
  proof -
    from t2 g g1 have w3: "w3 = db_set ?gkey (VGrp (grp\<lparr>g_lastUpdatedAt := now w1\<rparr>)) w2"
      by simp
    show ?thesis
      unfolding fin(2) w3 w2_def w1 releaseGroupLock_def releaseLock_def
      by (simp add: store_defs key_defs)
  qed
  from l fin(1) i' grp_case show ?thesis
    by blast
qed

text \<open>
  A heartbeat for \<open>g/a\<close> in \<open>oneGroup\<close> at 5000 moves \<open>updatedAt\<close> and
  \<open>lastUpdatedAt\<close> from 1000 to 5000 and nothing else.
\<close>

lemma oneGroup_heartbeat:
  "postInstance config ''g'' ''a'' ''{}'' oneGroup
     = Returns (''{}'',
         releaseGroupLock ''g''
           (db_set ''group:g''
              (VGrp \<lparr>g_group = ''g'', g_createdAt = 1000, g_lastUpdatedAt = 5000\<rparr>)
              (db_set ''instance:g:a''
                 (VInst \<lparr>i_id = ''a'', i_group = ''g'', i_createdAt = 1000, i_updatedAt = 5000,
                         i_meta = ''{}''\<rparr>)
                 (db_set ''mutex:group:g:instances'' (VNum 5000) oneGroup))))"
  by (simp add: postInstance_def oneGroup_def emptyWorld_def config_def lock_defs key_defs
      store_defs loop_free mutexFree_def Let_def)

theorem heartbeat_refreshes_timestamps_witness:
  "postInstance config ''g'' ''a'' ''{}'' oneGroup
     = Returns (''{}'',
         releaseGroupLock ''g''
           (db_set ''group:g''
              (VGrp \<lparr>g_group = ''g'', g_createdAt = 1000, g_lastUpdatedAt = 5000\<rparr>)
              (db_set ''instance:g:a''
                 (VInst \<lparr>i_id = ''a'', i_group = ''g'', i_createdAt = 1000, i_updatedAt = 5000,
                         i_meta = ''{}''\<rparr>)
                 (db_set ''mutex:group:g:instances'' (VNum 5000) oneGroup))))
   \<and> db_get (getInstanceKey ''g'' ''a'') oneGroup
       = Some (VInst \<lparr>i_id = ''a'', i_group = ''g'', i_createdAt = 1000, i_updatedAt = 1000,
                       i_meta = ''{}''\<rparr>)
   \<and> db_get (getGroupKey ''g'') oneGroup
       = Some (VGrp \<lparr>g_group = ''g'', g_createdAt = 1000, g_lastUpdatedAt = 1000\<rparr>)
   \<and> aquireGroupLock config ''g'' oneGroup
       = Returns (db_set ''mutex:group:g:instances'' (VNum 5000) oneGroup)
   \<and> db_get (getInstanceKey ''g'' ''a'')
        (releaseGroupLock ''g''
           (db_set ''group:g''
              (VGrp \<lparr>g_group = ''g'', g_createdAt = 1000, g_lastUpdatedAt = 5000\<rparr>)
              (db_set ''instance:g:a''
                 (VInst \<lparr>i_id = ''a'', i_group = ''g'', i_createdAt = 1000, i_updatedAt = 5000,
                         i_meta = ''{}''\<rparr>)
                 (db_set ''mutex:group:g:instances'' (VNum 5000) oneGroup))))
       = Some (VInst \<lparr>i_id = ''a'', i_group = ''g'', i_createdAt = 1000, i_updatedAt = 5000,
                       i_meta = ''{}''\<rparr>)
   \<and> db_get (getGroupKey ''g'')
        (releaseGroupLock ''g''
           (db_set ''group:g''
              (VGrp \<lparr>g_group = ''g'', g_createdAt = 1000, g_lastUpdatedAt = 5000\<rparr>)
              (db_set ''instance:g:a''
                 (VInst \<lparr>i_id = ''a'', i_group = ''g'', i_createdAt = 1000, i_updatedAt = 5000,
                         i_meta = ''{}''\<rparr>)
                 (db_set ''mutex:group:g:instances'' (VNum 5000) oneGroup))))
       = Some (VGrp \<lparr>g_group = ''g'', g_createdAt = 1000, g_lastUpdatedAt = 5000\<rparr>)"
proof -
  have inst: "db_get (getInstanceKey ''g'' ''a'') oneGroup
       = Some (VInst \<lparr>i_id = ''a'', i_group = ''g'', i_createdAt = 1000, i_updatedAt = 1000,
                       i_meta = ''{}''\<rparr>)"
    by (simp add: oneGroup_def key_defs db_get_db_set)
  have grp: "db_get (getGroupKey ''g'') oneGroup
       = Some (VGrp \<lparr>g_group = ''g'', g_createdAt = 1000, g_lastUpdatedAt = 1000\<rparr>)"
    by (simp add: oneGroup_def key_defs db_get_db_set)
  have lock: "aquireGroupLock config ''g'' oneGroup
       = Returns (db_set ''mutex:group:g:instances'' (VNum 5000) oneGroup)"
    by (simp add: oneGroup_def emptyWorld_def lock_defs key_defs store_defs loop_free
        mutexFree_def)
  let ?w' = "releaseGroupLock ''g''
           (db_set ''group:g''
              (VGrp \<lparr>g_group = ''g'', g_createdAt = 1000, g_lastUpdatedAt = 5000\<rparr>)
              (db_set ''instance:g:a''
                 (VInst \<lparr>i_id = ''a'', i_group = ''g'', i_createdAt = 1000, i_updatedAt = 5000,
                         i_meta = ''{}''\<rparr>)
                 (db_set ''mutex:group:g:instances'' (VNum 5000) oneGroup)))"
  let ?inst = "\<lparr>i_id = ''a'', i_group = ''g'', i_createdAt = 1000, i_updatedAt = 1000,
                 i_meta = ''{}''\<rparr>"
  let ?grp = "\<lparr>g_group = ''g'', g_createdAt = 1000, g_lastUpdatedAt = 1000\<rparr>"
  from heartbeat_refreshes_timestamps[OF oneGroup_heartbeat inst] obtain w1 where
    l: "aquireGroupLock config ''g'' oneGroup = Returns w1"
    and i: "db_get (getInstanceKey ''g'' ''a'') ?w' = Some (VInst (?inst\<lparr>i_updatedAt := now w1\<rparr>))"
    and g: "\<forall>grp. db_get (getGroupKey ''g'') oneGroup = Some (VGrp grp) \<longrightarrow>
              db_get (getGroupKey ''g'') ?w' = Some (VGrp (grp\<lparr>g_lastUpdatedAt := now w1\<rparr>))"
    by blast
  from l lock have "w1 = db_set ''mutex:group:g:instances'' (VNum 5000) oneGroup"
    by simp
  then have n: "now w1 = 5000"
    by (simp add: oneGroup_def emptyWorld_def now_def db_set_def)
  from g grp have g': "db_get (getGroupKey ''g'') ?w' = Some (VGrp (?grp\<lparr>g_lastUpdatedAt := now w1\<rparr>))"
    by blast
  from i g' have "db_get (getInstanceKey ''g'' ''a'') ?w'
       = Some (VInst \<lparr>i_id = ''a'', i_group = ''g'', i_createdAt = 1000, i_updatedAt = 5000,
                       i_meta = ''{}''\<rparr>)
   \<and> db_get (getGroupKey ''g'') ?w'
       = Some (VGrp \<lparr>g_group = ''g'', g_createdAt = 1000, g_lastUpdatedAt = 5000\<rparr>)"
    unfolding n by simp
  with oneGroup_heartbeat inst grp lock show ?thesis by blast
qed


section \<open>What a sweep leaves alone\<close>

text \<open>
  The sweep of a group writes the group's mutex, the group's index and the keys of
  the group's instances, and nothing else; so a whole sweep does not create the index
  of a group that is not listed.
\<close>

lemma db_get_fields [simp]:
  "db_get k (w\<lparr>lastInstancesDispose := l\<rparr>) = db_get k w"
  "db_get k (w\<lparr>gcCounter := n\<rparr>) = db_get k w"
  by (simp_all add: db_get_def)

lemma shouldGC_db: "db_get k (snd (shouldGC cfg w)) = db_get k w"
  by (simp add: shouldGC_def Let_def)

lemma aquireLock_other:
  assumes "aquireLock cfg name w = Returns w'" "k \<noteq> ''mutex:'' @ name"
  shows "db_get k w' = db_get k w"
  using aquireLock_Returns[OF assms(1)] assms(2) by (auto simp: db_get_db_set)

text \<open>
  A heartbeat does return when a sleep lasts at least a millisecond and the group's
  mutex holds a timestamp or nothing.
\<close>

lemma heartbeat_returns:
  assumes T: "25 \<le> mutexTimeout cfg"
    and m: "db_get (''mutex:'' @ getGroupIndexKey gid) w = None
            \<or> (\<exists>start. db_get (''mutex:'' @ getGroupIndexKey gid) w = Some (VNum start))"
    and inst: "db_get (getInstanceKey gid ident) w = Some (VInst inst)"
    and grp: "db_get (getGroupKey gid) w = Some (VGrp grp)"
  shows "\<exists>w'. postInstance cfg gid ident payload w = Returns (payload, w')"
proof -
  from aquireLock_total[OF T m] obtain w1 where
    l: "aquireLock cfg (getGroupIndexKey gid) w = Returns w1"
    by blast
  have "db_get (getInstanceKey gid ident) w1 = Some (VInst inst)"
    using aquireLock_other[OF l, of "getInstanceKey gid ident"] inst by (simp add: key_defs)
  moreover have "db_get (getGroupKey gid) w1 = Some (VGrp grp)"
    using aquireLock_other[OF l, of "getGroupKey gid"] grp by (simp add: key_defs)
  ultimately show ?thesis
    using l by (simp add: postInstance_def Let_def aquireGroupLock_def)
qed



lemma fold_db_del:
  "db_get k (fold (\<lambda>x. db_del (f x)) xs w) = (if k \<in> f ` set xs then None else db_get k w)"
  by (induction xs arbitrary: w) (auto simp: db_get_db_del)




section \<open>Removing a group\<close>

lemma getList_db_set_list [simp]: "getList (db_set listIndexKey v w) = v"
  by (simp add: getList_def db_get_db_set)

lemma getList_cong: "db_get listIndexKey w' = db_get listIndexKey w \<Longrightarrow> getList w' = getList w"
  by (simp add: getList_def)

lemma alterListIndex_remove:
  assumes "getList w = VIds gs"
  shows "alterListIndex None (Some [gid]) w
           = db_set listIndexKey (VIds (filter (\<lambda>x. x \<noteq> gid) gs)) w"
proof (cases gs)
  case Nil
  with assms show ?thesis
    by (simp add: alterListIndex_def hasLength_def Let_def)
next
  case (Cons x xs)
  with assms have "alterListIndex None (Some [gid]) w
      = db_set listIndexKey (VIds (filter (\<lambda>x. x \<notin> set [gid]) gs)) w"
    by (simp add: alterListIndex_def hasLength_def Let_def)
  then show ?thesis by simp
qed

lemma alterListIndex_no_list:
  assumes "\<forall>gs. getList w \<noteq> VIds gs"
  shows "getList (alterListIndex None remove w) = getList w"
  using assms
  by (cases "getList w") (simp_all add: alterListIndex_def hasLength_def Let_def)

lemma removeGroup_Returns:
  assumes "removeGroup cfg gid w = Returns w'"
  shows "\<exists>c. w' = releaseListIndexLock (alterListIndex None (Some [gid])
                 (db_del (getGroupIndexKey gid) (db_del (getGroupKey gid)
                    (db_set (''mutex:'' @ listIndexKey) (VNum c) (w\<lparr>clock := c\<rparr>)))))"
proof -
  from assms obtain w1 where l: "aquireLock cfg listIndexKey w = Returns w1"
    and w': "w' = releaseListIndexLock (alterListIndex None (Some [gid])
                 (db_del (getGroupIndexKey gid) (db_del (getGroupKey gid) w1)))"
    by (auto simp: removeGroup_def Let_def await_Returns aquireListIndexLock_def)
  from aquireLock_Returns[OF l] w' show ?thesis by blast
qed

lemma removeGroup_get:
  assumes "removeGroup cfg gid w = Returns w'"
  shows "db_get k w' =
           (if k = listIndexKey then Some (getList w')
            else if k = ''mutex:'' @ listIndexKey \<or> k = getGroupKey gid \<or> k = getGroupIndexKey gid
                 then None
            else db_get k w)"
    and "\<And>gs. getList w = VIds gs \<Longrightarrow> getList w' = VIds (filter (\<lambda>x. x \<noteq> gid) gs)"
    and "(\<forall>gs. getList w \<noteq> VIds gs) \<Longrightarrow> getList w' = getList w"
proof -
  from removeGroup_Returns[OF assms] obtain c where
    w': "w' = releaseListIndexLock (alterListIndex None (Some [gid])
                 (db_del (getGroupIndexKey gid) (db_del (getGroupKey gid)
                    (db_set (''mutex:'' @ listIndexKey) (VNum c) (w\<lparr>clock := c\<rparr>)))))"
    by blast
  let ?w3 = "db_del (getGroupIndexKey gid) (db_del (getGroupKey gid)
                    (db_set (''mutex:'' @ listIndexKey) (VNum c) (w\<lparr>clock := c\<rparr>)))"
  have l3: "getList ?w3 = getList w"
    by (intro getList_cong) (simp add: db_get_db_del db_get_db_set key_defs)
  have rel: "getList (releaseListIndexLock v) = getList v" for v
    by (intro getList_cong)
       (simp add: releaseListIndexLock_def releaseLock_def db_get_db_del key_defs)
  show a: "getList w' = VIds (filter (\<lambda>x. x \<noteq> gid) gs)" if "getList w = VIds gs" for gs
    unfolding w' rel using that l3 by (simp add: alterListIndex_remove)
  show b: "getList w' = getList w" if "\<forall>gs. getList w \<noteq> VIds gs"
    unfolding w' rel using that l3 by (simp add: alterListIndex_no_list)
  have present: "db_get listIndexKey w' = Some (getList w')"
    unfolding w' releaseListIndexLock_def releaseLock_def
    by (subst (1 2) alterListIndex_frame)
       (simp add: getList_def db_get_db_del db_get_def[of _ "_\<lparr>db := _\<rparr>"] key_defs)
  show "db_get k w' =
           (if k = listIndexKey then Some (getList w')
            else if k = ''mutex:'' @ listIndexKey \<or> k = getGroupKey gid \<or> k = getGroupIndexKey gid
                 then None
            else db_get k w)"
  proof (cases "k = listIndexKey")
    case True
    with present show ?thesis by simp
  next
    case False
    then have "db_get k w' = db_get k (releaseListIndexLock ?w3)"
      unfolding w' releaseListIndexLock_def releaseLock_def
      by (simp add: db_get_db_del alterListIndex_other)
    also have "\<dots> = (if k = ''mutex:'' @ listIndexKey \<or> k = getGroupKey gid
                           \<or> k = getGroupIndexKey gid then None else db_get k w)"
      unfolding releaseListIndexLock_def releaseLock_def
      by (simp add: db_get_db_del db_get_db_set)
    finally show ?thesis using False by simp
  qed
qed

section \<open>A sweep runs to its end\<close>

lemma timestampOrAbsent_simps [simp]:
  "timestampOrAbsent None" "timestampOrAbsent (Some (VNum n))"
  by (simp_all add: timestampOrAbsent_def)

lemma idsOrAbsent_simps [simp]:
  "idsOrAbsent None" "idsOrAbsent (Some (VIds xs))"
  by (simp_all add: idsOrAbsent_def)







section \<open>Removing the last instance\<close>







section \<open>Indexes without repetition\<close>

text \<open>
  Two group ids without colon give one instance key only for one pair of ids, and the
  record key of such a group is no index key.
\<close>

lemma takeWhile_colon:
  "CHR '':'' \<notin> set g \<Longrightarrow> takeWhile (\<lambda>c. c \<noteq> CHR '':'') (g @ CHR '':'' # i) = g"
  by (induction g) auto

lemma colonFree_split:
  assumes "colonFree g" "colonFree g'" "g @ CHR '':'' # i = g' @ CHR '':'' # i'"
  shows "g = g' \<and> i = i'"
proof -
  have "takeWhile (\<lambda>c. c \<noteq> CHR '':'') (g @ CHR '':'' # i) = g"
    using assms(1) by (simp add: colonFree_def takeWhile_colon)
  moreover have "takeWhile (\<lambda>c. c \<noteq> CHR '':'') (g' @ CHR '':'' # i') = g'"
    using assms(2) by (simp add: colonFree_def takeWhile_colon)
  ultimately have "g = g'" using assms(3) by simp
  with assms(3) show ?thesis by simp
qed

lemma getInstanceKey_inj:
  assumes "colonFree g" "colonFree g'" "getInstanceKey g i = getInstanceKey g' i'"
  shows "g = g' \<and> i = i'"
  using colonFree_split[OF assms(1,2), of i i'] assms(3) by (simp add: getInstanceKey_def)

lemma getGroupKey_not_index:
  assumes "colonFree g"
  shows "getGroupKey g \<noteq> getGroupIndexKey g'"
proof
  assume "getGroupKey g = getGroupIndexKey g'"
  then have "g = g' @ '':instances''" by (simp add: key_defs)
  then have "CHR '':'' \<in> set g" by simp
  with assms show False by (simp add: colonFree_def)
qed

lemma indexSound_cong:
  assumes "db_get (getGroupIndexKey gid) w' = db_get (getGroupIndexKey gid) w"
    and "\<And>i. db_get (getInstanceKey gid i) w \<noteq> None \<Longrightarrow> db_get (getInstanceKey gid i) w' \<noteq> None"
    and "indexSound w gid"
  shows "indexSound w' gid"
  using assms(3,2) unfolding indexSound_def assms(1)
  by (auto split: option.splits val.splits)

lemma listSound_cong:
  assumes "db_get listIndexKey w' = db_get listIndexKey w" "listSound w"
  shows "listSound w'"
  using assms(2) unfolding listSound_def getList_def assms(1) .

text \<open>The handler of \<open>POST\<close> keeps the indexes sound.\<close>

lemma sound_mono:
  assumes "sound w"
    and "\<And>gid. db_get (getGroupIndexKey gid) w' = db_get (getGroupIndexKey gid) w"
    and "db_get listIndexKey w' = db_get listIndexKey w"
    and "\<And>gid i. db_get (getInstanceKey gid i) w \<noteq> None \<Longrightarrow> db_get (getInstanceKey gid i) w' \<noteq> None"
  shows "sound w'"
  using assms(1) indexSound_cong[OF assms(2) assms(4)] listSound_cong[OF assms(3)]
  by (simp add: sound_def)

lemma sound_aquireLock:
  assumes "aquireLock cfg name w = Returns w'" "sound w"
  shows "sound w'"
  using assms(2)
  by (rule sound_mono) (simp_all add: aquireLock_other[OF assms(1)] key_defs)

lemma sound_releaseLock:
  assumes "sound w"
  shows "sound (releaseLock name w)"
  using assms
  by (rule sound_mono) (simp_all add: releaseLock_def db_get_db_del key_defs)

lemma sound_set_instance:
  assumes "sound w" "db_get (getInstanceKey gid i) w \<noteq> None"
  shows "sound (db_set (getInstanceKey gid i) v w)"
  using assms(1)
  by (rule sound_mono) (auto simp: db_get_db_set key_defs)

lemma sound_set_group:
  assumes "sound w" "colonFree gid"
  shows "sound (db_set (getGroupKey gid) v w)"
  using assms(1)
proof (rule sound_mono)
  show "db_get (getGroupIndexKey g) (db_set (getGroupKey gid) v w) = db_get (getGroupIndexKey g) w"
    for g
    using getGroupKey_not_index[OF assms(2), of g] by (simp add: db_get_db_set)
qed (simp_all add: db_get_db_set key_defs)

lemma sound_addInstance:
  assumes ret: "addInstance gid ident payload w = Returns w'"
    and s: "sound w" and cf: "colonFree gid"
    and absent: "db_get (getInstanceKey gid ident) w = None"
  shows "sound w' \<and> db_get (getInstanceKey gid ident) w' \<noteq> None"
proof -
  let ?inst = "VInst \<lparr>i_id = ident, i_group = gid, i_createdAt = now w,
                      i_updatedAt = now w, i_meta = payload\<rparr>"
  from s have isg: "indexSound w gid" by (simp add: sound_def)
  obtain ids where w': "w' = db_set (getGroupIndexKey gid) (VIds (ids @ [ident]))
                            (db_set (getInstanceKey gid ident) ?inst w)"
    and ids: "db_get (getGroupIndexKey gid) w = None \<and> ids = []
              \<or> db_get (getGroupIndexKey gid) w = Some (VIds ids)"
    using ret
    by (auto simp: addInstance_def Let_def split: option.splits val.splits)
  have old: "distinct ids" "\<forall>i\<in>set ids. db_get (getInstanceKey gid i) w \<noteq> None"
    using ids isg by (auto simp: indexSound_def)
  with absent have new: "ident \<notin> set ids" by auto
  have rec: "db_get (getInstanceKey g i) w' \<noteq> None" if "db_get (getInstanceKey g i) w \<noteq> None" for g i
    using that unfolding w' by (simp add: db_get_db_set key_defs)
  have here: "db_get (getInstanceKey gid ident) w' \<noteq> None"
    unfolding w' by (simp add: db_get_db_set key_defs)
  have "indexSound w' g" for g
  proof (cases "g = gid")
    case True
    have "db_get (getGroupIndexKey gid) w' = Some (VIds (ids @ [ident]))"
      unfolding w' by (simp add: db_get_db_set)
    with old new cf rec here True show ?thesis
      by (auto simp: indexSound_def)
  next
    case False
    then have "db_get (getGroupIndexKey g) w' = db_get (getGroupIndexKey g) w"
      unfolding w' by (simp add: db_get_db_set key_defs)
    from indexSound_cong[OF this rec] s show ?thesis
      by (simp add: sound_def)
  qed
  moreover have "listSound w'"
    using s by (intro listSound_cong[of w' w]) (simp_all add: w' db_get_db_set key_defs sound_def)
  ultimately show ?thesis
    using here by (simp add: sound_def)
qed

lemma listSound_add:
  assumes "listSound w" "colonFree gid"
  shows "listSound (alterListIndex (Some [gid]) None w)"
proof -
  from assms(1) obtain gs where gs: "getList w = VIds gs" "\<forall>g\<in>set gs. colonFree g"
    by (cases "getList w") (auto simp: listSound_def)
  have "getList (alterListIndex (Some [gid]) None w) = VIds (gs @ [gid])"
    using gs(1) by (cases gs) (simp_all add: alterListIndex_def hasLength_def Let_def)
  with gs(2) assms(2) show ?thesis
    by (simp add: listSound_def)
qed

lemma sound_addGroup:
  assumes ret: "addGroup cfg gid ident w = Returns w'"
    and s: "sound w" and cf: "colonFree gid"
    and rec: "db_get (getInstanceKey gid ident) w \<noteq> None"
  shows "sound w'"
proof -
  from ret obtain w1 where l: "aquireLock cfg listIndexKey w = Returns w1"
    and w': "w' = releaseListIndexLock (alterListIndex (Some [gid]) None
               (db_set (getGroupIndexKey gid) (VIds [ident])
                 (db_set (getGroupKey gid)
                    (VGrp \<lparr>g_group = gid, g_createdAt = now w, g_lastUpdatedAt = now w\<rparr>) w1)))"
    by (auto simp: addGroup_def Let_def await_Returns aquireListIndexLock_def)
  let ?w2 = "db_set (getGroupKey gid)
                    (VGrp \<lparr>g_group = gid, g_createdAt = now w, g_lastUpdatedAt = now w\<rparr>) w1"
  let ?w3 = "db_set (getGroupIndexKey gid) (VIds [ident]) ?w2"
  let ?w4 = "alterListIndex (Some [gid]) None ?w3"
  have s2: "sound ?w2"
    by (rule sound_set_group[OF sound_aquireLock[OF l s] cf])
  have rec2: "db_get (getInstanceKey gid ident) ?w2 \<noteq> None"
    using rec aquireLock_other[OF l, of "getInstanceKey gid ident"]
    by (simp add: db_get_db_set key_defs)
  have i3: "indexSound ?w3 g" for g
  proof (cases "g = gid")
    case True
    with rec2 cf show ?thesis
      by (simp add: indexSound_def db_get_db_set key_defs)
  next
    case False
    have "indexSound ?w2 g" using s2 by (simp add: sound_def)
    then show ?thesis
      using False by (intro indexSound_cong[of g ?w3 ?w2]) (simp_all add: db_get_db_set key_defs)
  qed
  have l3: "listSound ?w3"
    using s2 by (intro listSound_cong[of ?w3 ?w2]) (simp_all add: db_get_db_set key_defs sound_def)
  have i4: "indexSound ?w4 g" for g
    using i3[of g]
    by (intro indexSound_cong[of g ?w4 ?w3]) (simp_all add: alterListIndex_other key_defs)
  have "sound ?w4"
    using i4 listSound_add[OF l3 cf] by (simp add: sound_def)
  then show ?thesis
    unfolding w' releaseListIndexLock_def by (rule sound_releaseLock)
qed

lemma sound_postInstance:
  assumes ret: "postInstance cfg gid ident payload w = Returns (body, w')"
    and s: "sound w" and cf: "colonFree gid"
  shows "sound w'"
proof -
  let ?ikey = "getInstanceKey gid ident"
  let ?gkey = "getGroupKey gid"
  from ret obtain w1 w2 w3 where l: "aquireLock cfg (getGroupIndexKey gid) w = Returns w1"
    and t1: "(case db_get ?ikey w1 of
                None \<Rightarrow> addInstance gid ident payload w1
              | Some (VInst instance) \<Rightarrow>
                  Returns (db_set ?ikey (VInst (instance\<lparr>i_updatedAt := now w1\<rparr>)) w1)
              | Some (VIds xs) \<Rightarrow> Returns (db_set ?ikey (VIds xs) w1)
              | Some _ \<Rightarrow> Throws Unrepresentable) = Returns w2"
    and t2: "(case db_get ?gkey w1 of
                None \<Rightarrow> addGroup cfg gid ident w2
              | Some (VGrp grp) \<Rightarrow>
                  Returns (db_set ?gkey (VGrp (grp\<lparr>g_lastUpdatedAt := now w1\<rparr>)) w2)
              | Some (VIds xs) \<Rightarrow> Returns (db_set ?gkey (VIds xs) w2)
              | Some _ \<Rightarrow> Throws Unrepresentable) = Returns w3"
    and w': "w' = releaseGroupLock gid w3"
    unfolding postInstance_def Let_def aquireGroupLock_def
    by (auto simp: await_Returns)
  have s1: "sound w1" by (rule sound_aquireLock[OF l s])
  have s2: "sound w2 \<and> db_get ?ikey w2 \<noteq> None"
  proof (cases "db_get ?ikey w1")
    case None
    with t1 have "addInstance gid ident payload w1 = Returns w2" by simp
    from sound_addInstance[OF this s1 cf None] show ?thesis .
  next
    case (Some v)
    then have p: "db_get ?ikey w1 \<noteq> None" by simp
    from t1 Some obtain v' where "w2 = db_set ?ikey v' w1"
      by (cases v) auto
    with sound_set_instance[OF s1 p] show ?thesis
      by (simp add: db_get_db_set)
  qed
  have s3: "sound w3"
  proof (cases "db_get ?gkey w1")
    case None
    with t2 have "addGroup cfg gid ident w2 = Returns w3" by simp
    from sound_addGroup[OF this _ cf] s2 show ?thesis by simp
  next
    case (Some v)
    with t2 obtain v' where "w3 = db_set ?gkey v' w2"
      by (cases v) auto
    with sound_set_group[OF _ cf] s2 show ?thesis by simp
  qed
  then show ?thesis
    unfolding w' releaseGroupLock_def by (rule sound_releaseLock)
qed

text \<open>The sweep keeps them sound.\<close>

lemma sweepGroup_result:
  assumes "sweepGroup cfg t gid s = Returns r"
  shows "\<exists>w1 ids0. aquireLock cfg (getGroupIndexKey gid) (fst s) = Returns w1
           \<and> (db_get (getGroupIndexKey gid) w1 = None \<and> ids0 = []
                \<or> db_get (getGroupIndexKey gid) w1 = Some (VIds ids0))
           \<and> (snd (fold (sweepInstance cfg t gid) ids0 (w1, ids0)) = []
                 \<and> r = (fst (fold (sweepInstance cfg t gid) ids0 (w1, ids0)), snd s @ [gid])
               \<or> snd (fold (sweepInstance cfg t gid) ids0 (w1, ids0)) \<noteq> []
                 \<and> r = (db_set (getGroupIndexKey gid)
                          (VIds (snd (fold (sweepInstance cfg t gid) ids0 (w1, ids0))))
                          (fst (fold (sweepInstance cfg t gid) ids0 (w1, ids0))), snd s))"
proof -
  from assms obtain w1 where l: "aquireLock cfg (getGroupIndexKey gid) (fst s) = Returns w1"
    by (auto simp: sweepGroup_def Let_def await_Returns aquireGroupLock_def)
  show ?thesis
  proof (cases "db_get (getGroupIndexKey gid) w1")
    case None
    with assms l show ?thesis
      by (auto simp: sweepGroup_def Let_def aquireGroupLock_def split: if_splits)
  next
    case (Some v)
    with assms l obtain ids0 where "v = VIds ids0"
      by (cases v) (auto simp: sweepGroup_def Let_def aquireGroupLock_def)
    with assms l Some show ?thesis
      by (auto simp: sweepGroup_def Let_def aquireGroupLock_def split: if_splits)
  qed
qed

lemma sweepGroup_sound:
  assumes cf: "colonFree gid" and pre: "sweeping (snd s) (fst s)"
    and ret: "sweepGroup cfg t gid s = Returns r"
  shows "sweeping (snd r) (fst r)"
proof -
  let ?ikey = "getGroupIndexKey gid"
  from sweepGroup_result[OF ret] obtain w1 ids0 where
    l: "aquireLock cfg ?ikey (fst s) = Returns w1"
    and idx: "db_get ?ikey w1 = None \<and> ids0 = [] \<or> db_get ?ikey w1 = Some (VIds ids0)"
    and res: "snd (fold (sweepInstance cfg t gid) ids0 (w1, ids0)) = []
                 \<and> r = (fst (fold (sweepInstance cfg t gid) ids0 (w1, ids0)), snd s @ [gid])
               \<or> snd (fold (sweepInstance cfg t gid) ids0 (w1, ids0)) \<noteq> []
                 \<and> r = (db_set ?ikey
                          (VIds (snd (fold (sweepInstance cfg t gid) ids0 (w1, ids0))))
                          (fst (fold (sweepInstance cfg t gid) ids0 (w1, ids0))), snd s)"
    by blast
  let ?f = "fold (sweepInstance cfg t gid) ids0 (w1, ids0)"
  have kept: "snd ?f = filter (survives cfg t gid w1) ids0"
    unfolding fold_sweepInstance_ids by (intro filter_cong) auto
  have w1: "db_get k w1 = db_get k (fst s)" if "k \<noteq> ''mutex:'' @ ?ikey" for k
    by (rule aquireLock_other[OF l that])
  have other_index: "db_get (getGroupIndexKey g) (fst r) = db_get (getGroupIndexKey g) (fst s)"
    if "g \<noteq> gid" for g
  proof -
    have "db_get (getGroupIndexKey g) (fst r) = db_get (getGroupIndexKey g) (fst ?f)"
      using res that by (auto simp: db_get_db_set key_defs)
    also have "\<dots> = db_get (getGroupIndexKey g) w1"
      unfolding fold_sweepInstance_db by (auto simp: key_defs)
    finally show ?thesis by (simp add: w1 key_defs)
  qed
  have recs: "db_get (getInstanceKey g i) (fst r) =
                  (if \<exists>j\<in>set ids0. getInstanceKey g i = getInstanceKey gid j
                                     \<and> \<not> survives cfg t gid w1 j
                   then None else db_get (getInstanceKey g i) (fst s))" for g i
  proof -
    have a: "db_get (getInstanceKey g i) (fst r) = db_get (getInstanceKey g i) (fst ?f)"
      using res by (auto simp: db_get_db_set key_defs)
    have b: "db_get (getInstanceKey g i) w1 = db_get (getInstanceKey g i) (fst s)"
      by (simp add: w1 key_defs)
    show ?thesis
      unfolding a fold_sweepInstance_db b by (rule refl)
  qed
  have list: "db_get listIndexKey (fst r) = db_get listIndexKey (fst s)"
  proof -
    have "db_get listIndexKey (fst r) = db_get listIndexKey (fst ?f)"
      using res by (auto simp: db_get_db_set key_defs)
    also have "\<dots> = db_get listIndexKey w1"
      unfolding fold_sweepInstance_db by (auto simp: key_defs)
    finally show ?thesis by (simp add: w1 key_defs)
  qed
  have marked: "set (snd r) = set (snd s) \<or> set (snd r) = insert gid (set (snd s))"
    using res by auto
  have inv: "indexSound (fst r) g" if g: "g \<notin> set (snd r)" for g
  proof -
    from g marked have "g \<notin> set (snd s)" by auto
    with pre have old: "indexSound (fst s) g" by (simp add: sweeping_def)
    show ?thesis
    proof (cases "g = gid")
      case False
      show ?thesis
      proof (cases "db_get (getGroupIndexKey g) (fst s)")
        case None
        then show ?thesis
          by (simp add: indexSound_def other_index[OF False])
      next
        case (Some v)
        with old obtain ids where v: "v = VIds ids" and cg: "colonFree g" and d: "distinct ids"
          and p: "\<forall>i\<in>set ids. db_get (getInstanceKey g i) (fst s) \<noteq> None"
          by (cases v) (auto simp: indexSound_def)
        have "db_get (getInstanceKey g i) (fst r) \<noteq> None" if "i \<in> set ids" for i
        proof -
          have "\<not> (\<exists>j\<in>set ids0. getInstanceKey g i = getInstanceKey gid j
                                  \<and> \<not> survives cfg t gid w1 j)"
            using getInstanceKey_inj[OF cg cf] False by blast
          with p that show ?thesis unfolding recs by simp
        qed
        with Some v cg d show ?thesis
          by (simp add: indexSound_def other_index[OF False])
      qed
    next
      case True
      with g marked res have ne: "snd ?f \<noteq> []"
        and r: "r = (db_set ?ikey (VIds (snd ?f)) (fst ?f), snd s)"
        by auto
      from ne kept idx have i1: "db_get ?ikey w1 = Some (VIds ids0)"
        by auto
      then have "db_get ?ikey (fst s) = Some (VIds ids0)"
        by (simp add: w1 key_defs)
      with old True have d: "distinct ids0"
        and p: "\<forall>i\<in>set ids0. db_get (getInstanceKey gid i) (fst s) \<noteq> None"
        by (auto simp: indexSound_def)
      have here: "db_get ?ikey (fst r) = Some (VIds (filter (survives cfg t gid w1) ids0))"
        unfolding r kept by (simp add: db_get_db_set)
      have "db_get (getInstanceKey gid i) (fst r) \<noteq> None"
        if "i \<in> set ids0" "survives cfg t gid w1 i" for i
      proof -
        have "\<not> (\<exists>j\<in>set ids0. getInstanceKey gid i = getInstanceKey gid j
                                  \<and> \<not> survives cfg t gid w1 j)"
          using that(2) by (auto simp: key_defs)
        with p that(1) show ?thesis unfolding recs by simp
      qed
      with here d cf True show ?thesis
        by (simp add: indexSound_def)
    qed
  qed
  have "listSound (fst r)"
    using pre by (intro listSound_cong[OF list]) (simp add: sweeping_def)
  moreover have "\<forall>m\<in>set (snd r). colonFree m"
    using marked pre cf by (auto simp: sweeping_def)
  ultimately show ?thesis
    using inv by (simp add: sweeping_def)
qed

lemma sweepGroups_sound:
  assumes "\<forall>gid\<in>set gids. colonFree gid" "sweeping (snd s) (fst s)"
    and "sweepGroups cfg t gids s = Returns r"
  shows "sweeping (snd r) (fst r)"
  using assms
proof (induction gids arbitrary: s)
  case Nil
  then show ?case by simp
next
  case (Cons gid gids)
  from Cons.prems(3) obtain s1 where s1: "sweepGroup cfg t gid s = Returns s1"
    and rest: "sweepGroups cfg t gids s1 = Returns r"
    by (auto simp: await_Returns)
  from Cons.prems(1) have "colonFree gid" by simp
  from sweepGroup_sound[OF this Cons.prems(2) s1] have "sweeping (snd s1) (fst s1)" .
  from Cons.IH[OF _ this rest] Cons.prems(1) show ?case by simp
qed

lemma sound_fields:
  assumes "sound w"
  shows "sound (w\<lparr>clock := c\<rparr>)" "sound (w\<lparr>lastInstancesDispose := l\<rparr>)"
    "sound (w\<lparr>gcCounter := n\<rparr>)" "sound (snd (shouldGC cfg w))"
    "sound (db_set ''last_gc'' v w)" "sound (sleep ms w)"
proof -
  show "sound (w\<lparr>clock := c\<rparr>)"
    using assms by (rule sound_mono) simp_all
  show "sound (w\<lparr>lastInstancesDispose := l\<rparr>)"
    using assms by (rule sound_mono) simp_all
  show "sound (w\<lparr>gcCounter := n\<rparr>)"
    using assms by (rule sound_mono) simp_all
  show "sound (snd (shouldGC cfg w))"
    using assms by (rule sound_mono) (simp_all add: shouldGC_db)
  show "sound (db_set ''last_gc'' v w)"
    using assms by (rule sound_mono) (simp_all add: db_get_db_set key_defs)
  show "sound (sleep ms w)"
    using assms by (rule sound_mono) (simp_all add: sleep_def)
qed

lemma listSound_remove:
  assumes "listSound w" "marked \<noteq> []"
  shows "listSound (alterListIndex None (Some marked) w)"
proof -
  from assms(1) obtain gs where gs: "getList w = VIds gs" "\<forall>g\<in>set gs. colonFree g"
    by (cases "getList w") (auto simp: listSound_def)
  have "getList (alterListIndex None (Some marked) w)
          = VIds (filter (\<lambda>gid. gid \<notin> set marked) gs)"
    using gs(1) assms(2) by (cases gs) (simp_all add: alterListIndex_def hasLength_def Let_def)
  with gs(2) show ?thesis
    by (simp add: listSound_def)
qed

lemma removeMarked_sound:
  assumes "sweeping marked w"
  shows "sound (removeMarked marked w)"
proof (cases "marked = []")
  case True
  with assms show ?thesis
    by (simp add: removeMarked_def sweeping_def sound_def)
next
  case False
  let ?w1 = "fold (\<lambda>gid. db_del (getGroupIndexKey gid)) marked
               (fold (\<lambda>gid. db_del (getGroupKey gid)) marked w)"
  have rm: "removeMarked marked w = alterListIndex None (Some marked) ?w1"
    using False by (simp add: removeMarked_def)
  have get1: "db_get k ?w1 = (if k \<in> getGroupIndexKey ` set marked \<or> k \<in> getGroupKey ` set marked
                              then None else db_get k w)" for k
    by (simp add: fold_db_del)
  from assms have cm: "\<forall>m\<in>set marked. colonFree m" and ls: "listSound w"
    and isg: "\<And>g. g \<notin> set marked \<Longrightarrow> indexSound w g"
    by (simp_all add: sweeping_def)
  have nl: "listIndexKey \<notin> getGroupIndexKey ` set marked" "listIndexKey \<notin> getGroupKey ` set marked"
    "getGroupIndexKey g \<noteq> listIndexKey" "getInstanceKey g i \<noteq> listIndexKey"
    "getInstanceKey g i \<notin> getGroupIndexKey ` set marked"
    "getInstanceKey g i \<notin> getGroupKey ` set marked" for g i
    by (auto simp: key_defs)
  have "listSound ?w1"
    using ls by (intro listSound_cong[of ?w1 w]) (simp_all add: get1 nl)
  from listSound_remove[OF this False] have l: "listSound (removeMarked marked w)"
    by (simp add: rm)
  have "indexSound (removeMarked marked w) g" for g
  proof (cases "g \<in> set marked")
    case True
    then have "db_get (getGroupIndexKey g) (removeMarked marked w) = None"
      unfolding rm by (simp add: alterListIndex_other get1 nl)
    then show ?thesis by (simp add: indexSound_def)
  next
    case notin: False
    have "getGroupIndexKey g \<notin> getGroupIndexKey ` set marked"
      using notin by (auto simp: key_defs)
    moreover have "getGroupIndexKey g \<notin> getGroupKey ` set marked"
    proof
      assume "getGroupIndexKey g \<in> getGroupKey ` set marked"
      then obtain m where "m \<in> set marked" "getGroupKey m = getGroupIndexKey g"
        by auto
      with cm getGroupKey_not_index[of m g] show False by blast
    qed
    ultimately have a: "db_get (getGroupIndexKey g) (removeMarked marked w)
                        = db_get (getGroupIndexKey g) w"
      unfolding rm by (simp add: alterListIndex_other get1 nl)
    have b: "db_get (getInstanceKey g i) (removeMarked marked w) = db_get (getInstanceKey g i) w"
      for i
      unfolding rm by (simp add: alterListIndex_other get1 nl)
    from isg[OF notin] show ?thesis
      by (rule indexSound_cong[OF a, rotated]) (simp add: b)
  qed
  with l show ?thesis by (simp add: sound_def)
qed

lemma sound_fold_release:
  assumes "sound w"
  shows "sound (fold releaseGroupLock gids w)"
  using assms
  by (induction gids arbitrary: w) (simp_all add: releaseGroupLock_def sound_releaseLock)

lemma sound_disposeExpired:
  assumes ret: "disposeExpired cfg w = Returns w'" and s: "sound w"
  shows "sound w'"
proof (cases "fst (shouldGC cfg w)")
  case False
  with ret have "w' = snd (shouldGC cfg w)"
    by (simp add: disposeExpired_def Let_def)
  with s show ?thesis by (simp add: sound_fields)
next
  case True
  define w1 where "w1 = (snd (shouldGC cfg w))\<lparr>gcCounter := gcCounter (snd (shouldGC cfg w)) + 1\<rparr>"
  define w2 where "w2 = db_set ''last_gc'' (VNum (now w1)) w1"
  have s2: "sound w2"
    unfolding w2_def w1_def using s by (intro sound_fields)
  from ret True obtain w3 where l: "aquireLock cfg listIndexKey w2 = Returns w3"
    unfolding disposeExpired_def Let_def w1_def w2_def
    by (auto simp: await_Returns aquireListIndexLock_def)
  have s3: "sound w3" by (rule sound_aquireLock[OF l s2])
  from ret True l obtain gids r where gids: "getList w3 = VIds gids"
    and sw: "sweepGroups cfg (now w1) gids (w3, []) = Returns r"
    and w': "w' = fold releaseGroupLock gids (releaseListIndexLock
                    ((db_set ''last_gc'' (VNum (now (removeMarked (snd r) (fst r))))
                        (removeMarked (snd r) (fst r)))
                     \<lparr>lastInstancesDispose :=
                         Some (now (db_set ''last_gc'' (VNum (now (removeMarked (snd r) (fst r))))
                                     (removeMarked (snd r) (fst r))))\<rparr>))"
    unfolding disposeExpired_def Let_def w1_def w2_def
    by (cases "getList w3") (auto simp: await_Returns aquireListIndexLock_def)
  from s3 gids have cf: "\<forall>gid\<in>set gids. colonFree gid"
    by (simp add: sound_def listSound_def)
  from s3 have "sweeping (snd (w3, [])) (fst (w3, []))"
    by (simp add: sweeping_def sound_def)
  from sweepGroups_sound[OF cf this sw] have "sweeping (snd r) (fst r)" .
  then have "sound (removeMarked (snd r) (fst r))"
    by (rule removeMarked_sound)
  then show ?thesis
    unfolding w' releaseListIndexLock_def
    by (intro sound_fold_release sound_releaseLock sound_fields)
qed

text \<open>
  A removal keeps the indexes sound when it removes an id that is alone in its index
  (the group goes) or that the index does not list.
\<close>

lemma sound_removeInstance:
  assumes ret: "removeInstance cfg gid ident w = Returns w'"
    and s: "sound w" and cf: "colonFree gid"
    and single: "\<forall>ids. db_get (getGroupIndexKey gid) w = Some (VIds ids) \<longrightarrow> ident \<in> set ids
                   \<longrightarrow> set ids = {ident}"
  shows "sound w'"
proof -
  let ?key = "getInstanceKey gid ident"
  let ?w1 = "db_del ?key w"
  have idx1: "db_get (getGroupIndexKey g) ?w1 = db_get (getGroupIndexKey g) w" for g
    by (simp add: db_get_db_del key_defs)
  have list1: "db_get listIndexKey ?w1 = db_get listIndexKey w"
    by (simp add: db_get_db_del key_defs)
  have other: "indexSound ?w1 g" if "g \<noteq> gid" for g
  proof (cases "db_get (getGroupIndexKey g) w")
    case None
    then show ?thesis by (simp add: indexSound_def idx1)
  next
    case (Some v)
    from s have "indexSound w g" by (simp add: sound_def)
    with Some obtain ids where v: "v = VIds ids" and cg: "colonFree g" and d: "distinct ids"
      and p: "\<forall>i\<in>set ids. db_get (getInstanceKey g i) w \<noteq> None"
      by (cases v) (auto simp: indexSound_def)
    have "getInstanceKey g i \<noteq> ?key" for i
      using getInstanceKey_inj[OF cg cf, of i ident] that by blast
    with p have "\<forall>i\<in>set ids. db_get (getInstanceKey g i) ?w1 \<noteq> None"
      by (simp add: db_get_db_del)
    with Some v cg d show ?thesis
      by (simp add: indexSound_def idx1)
  qed
  have ls1: "listSound ?w1"
    using s by (intro listSound_cong[OF list1]) (simp add: sound_def)
  show ?thesis
  proof (cases "\<exists>ids. db_get (getGroupIndexKey gid) w = Some (VIds ids)
                      \<and> filter (\<lambda>item. item \<noteq> ident) ids = []")
    case True
    then obtain ids where "db_get (getGroupIndexKey gid) w = Some (VIds ids)"
      "filter (\<lambda>item. item \<noteq> ident) ids = []"
      by blast
    with ret have rg: "removeGroup cfg gid ?w1 = Returns w'"
      by (simp add: removeInstance_def Let_def idx1)
    note get = removeGroup_get(1)[OF rg]
    from ls1 obtain gs where gs: "getList ?w1 = VIds gs" "\<forall>g\<in>set gs. colonFree g"
      by (cases "getList ?w1") (auto simp: listSound_def)
    from removeGroup_get(2)[OF rg gs(1)] gs(2) have l': "listSound w'"
      by (simp add: listSound_def)
    have "indexSound w' g" for g
    proof (cases "g = gid")
      case True
      have "db_get (getGroupIndexKey gid) w' = None"
        unfolding get by (simp add: key_defs)
      with True show ?thesis by (simp add: indexSound_def)
    next
      case False
      have a: "db_get (getGroupIndexKey g) w' = db_get (getGroupIndexKey g) ?w1"
        unfolding get using False getGroupKey_not_index[OF cf, of g] by (auto simp: key_defs)
      have b: "db_get (getInstanceKey g i) w' = db_get (getInstanceKey g i) ?w1" for i
        unfolding get by (simp add: key_defs)
      from other[OF False] show ?thesis
        by (rule indexSound_cong[OF a, rotated]) (simp add: b)
    qed
    with l' show ?thesis by (simp add: sound_def)
  next
    case False
    with ret have w': "w' = ?w1"
      by (auto simp: removeInstance_def Let_def idx1 split: option.splits val.splits if_splits)
    have "indexSound ?w1 gid"
    proof (cases "db_get (getGroupIndexKey gid) w")
      case None
      then show ?thesis by (simp add: indexSound_def idx1)
    next
      case (Some v)
      from s have "indexSound w gid" by (simp add: sound_def)
      with Some obtain ids where v: "v = VIds ids" and d: "distinct ids"
        and p: "\<forall>i\<in>set ids. db_get (getInstanceKey gid i) w \<noteq> None"
        by (cases v) (auto simp: indexSound_def)
      from False Some v have ne: "filter (\<lambda>item. item \<noteq> ident) ids \<noteq> []" by simp
      have "ident \<notin> set ids"
      proof
        assume "ident \<in> set ids"
        with single Some v have "set ids = {ident}" by blast
        then have "filter (\<lambda>item. item \<noteq> ident) ids = []"
          by (auto simp: filter_empty_conv)
        with ne show False by simp
      qed
      then have "\<forall>i\<in>set ids. getInstanceKey gid i \<noteq> ?key"
        by (auto simp: key_defs)
      with p have "\<forall>i\<in>set ids. db_get (getInstanceKey gid i) ?w1 \<noteq> None"
        by (simp add: db_get_db_del)
      with Some v d cf show ?thesis
        by (simp add: indexSound_def idx1)
    qed
    with other ls1 show ?thesis
      unfolding w' sound_def by metis
  qed
qed

lemma sound_deleteInstance:
  assumes ret: "deleteInstance cfg gid ident w = Returns (st, w')"
    and s: "sound w" and cf: "colonFree gid"
    and single: "\<forall>ids. db_get (getGroupIndexKey gid) w = Some (VIds ids) \<longrightarrow> ident \<in> set ids
                   \<longrightarrow> set ids = {ident}"
  shows "sound w'"
proof (cases "db_exists (getGroupKey gid) w")
  case False
  with ret s show ?thesis by (simp add: deleteInstance_def)
next
  case True
  with ret have "removeInstance cfg gid ident w = Returns w'"
    by (auto simp: deleteInstance_def await_Returns)
  from sound_removeInstance[OF this s cf single] show ?thesis .
qed

lemma sound_emptyWorld: "sound (emptyWorld t)"
  by (simp add: sound_def indexSound_def listSound_def getList_def emptyWorld_def db_get_def)

lemma reachable_sound: "reachable cfg w \<Longrightarrow> sound w"
proof (induction rule: reachable.induct)
  case (start t)
  show ?case by (rule sound_emptyWorld)
next
  case (elapse w ms)
  then show ?case by (simp add: sound_fields)
next
  case (fresh_state w l)
  then show ?case by (simp add: sound_fields)
next
  case (upsert w gid ident payload body w')
  from sound_postInstance[OF upsert.hyps(3) upsert.IH upsert.hyps(2)] show ?case .
next
  case (remove w gid ident st w')
  from sound_deleteInstance[OF remove.hyps(4) remove.IH remove.hyps(2,3)] show ?case .
next
  case (sweep w w')
  from sound_disposeExpired[OF sweep.hyps(2) sweep.IH] show ?case .
qed

text \<open>
  C5, as the code has it. In every world reached from the empty store by upserts,
  removals and sweeps, in any order and at any times, no index lists an id twice,
  provided that no group id of a request holds a colon and that no removal names an id
  which the index lists together with another id (what \<open>removeInstance\<close> does then
  is the subject of C1).
\<close>

theorem reachable_index_distinct:
  assumes "reachable cfg w" "db_get (getGroupIndexKey gid) w = Some (VIds ids)"
  shows "distinct ids"
  using reachable_sound[OF assms(1)] assms(2)
  by (auto simp: sound_def indexSound_def split: option.splits val.splits dest: spec[of _ gid])

text \<open>
  An upsert of \<open>g/a\<close>, its removal (the group goes with it), and upserts of \<open>g/a\<close>
  and \<open>g/b\<close> reach a world whose index is \<open>[a, b]\<close>.
\<close>

theorem reachable_index_distinct_witness:
  "\<exists>w1 w2 w3 w4. reachable config w4
     \<and> postInstance config ''g'' ''a'' ''{}'' (emptyWorld 1000) = Returns (''{}'', w1)
     \<and> db_get (getGroupIndexKey ''g'') w1 = Some (VIds [''a''])
     \<and> deleteInstance config ''g'' ''a'' w1 = Returns (NO_CONTENT, w2)
     \<and> postInstance config ''g'' ''a'' ''{}'' w2 = Returns (''{}'', w3)
     \<and> postInstance config ''g'' ''b'' ''{}'' w3 = Returns (''{}'', w4)
     \<and> db_get (getGroupIndexKey ''g'') w4 = Some (VIds [''a'', ''b''])
     \<and> distinct [''a'', ''b'']"
proof -
  have "\<exists>w1 w2 w3 w4.
       postInstance config ''g'' ''a'' ''{}'' (emptyWorld 1000) = Returns (''{}'', w1)
     \<and> db_get (getGroupIndexKey ''g'') w1 = Some (VIds [''a''])
     \<and> deleteInstance config ''g'' ''a'' w1 = Returns (NO_CONTENT, w2)
     \<and> postInstance config ''g'' ''a'' ''{}'' w2 = Returns (''{}'', w3)
     \<and> postInstance config ''g'' ''b'' ''{}'' w3 = Returns (''{}'', w4)
     \<and> db_get (getGroupIndexKey ''g'') w4 = Some (VIds [''a'', ''b''])"
    by (simp add: handler_defs emptyWorld_def config_def lock_defs key_defs
        store_defs loop_free mutexFree_def Let_def)
  then obtain w1 w2 w3 w4 where
    p1: "postInstance config ''g'' ''a'' ''{}'' (emptyWorld 1000) = Returns (''{}'', w1)"
    and i1: "db_get (getGroupIndexKey ''g'') w1 = Some (VIds [''a''])"
    and d2: "deleteInstance config ''g'' ''a'' w1 = Returns (NO_CONTENT, w2)"
    and p3: "postInstance config ''g'' ''a'' ''{}'' w2 = Returns (''{}'', w3)"
    and p4: "postInstance config ''g'' ''b'' ''{}'' w3 = Returns (''{}'', w4)"
    and idx: "db_get (getGroupIndexKey ''g'') w4 = Some (VIds [''a'', ''b''])"
    by blast
  have cf: "colonFree ''g''" by (simp add: colonFree_def)
  have r1: "reachable config w1"
    by (rule reachable.upsert[OF reachable.start cf p1])
  have alone: "\<forall>ids. db_get (getGroupIndexKey ''g'') w1 = Some (VIds ids) \<longrightarrow> ''a'' \<in> set ids
                   \<longrightarrow> set ids = {''a''}"
    using i1 by simp
  have r2: "reachable config w2"
    by (rule reachable.remove[OF r1 cf alone d2])
  have r3: "reachable config w3"
    by (rule reachable.upsert[OF r2 cf p3])
  have r4: "reachable config w4"
    by (rule reachable.upsert[OF r3 cf p4])
  from reachable_index_distinct[OF r4 idx] r4 p1 i1 d2 p3 p4 idx show ?thesis
    by blast
qed

text \<open>
  C5, as the claim states it, fails twice over. With plain ids: after the removal of
  \<open>a\<close> its id stays in the index (C1), and the next upsert of \<open>a\<close> appends it again.
  With a colon in a group id: the pairs \<open>(g, a:b)\<close> and \<open>(g:a, b)\<close> share one instance
  key (C10), so removing \<open>b\<close> from \<open>g:a\<close>, where it is alone, deletes the record of
  \<open>a:b\<close> in \<open>g\<close>, and the next upsert of \<open>(g, a:b)\<close> appends \<open>a:b\<close> again.
\<close>

theorem index_lists_id_twice_counterexample:
  "map_outcome (db_get (getGroupIndexKey ''g''))
     (serve config [(0, POST ''g'' ''a'' ''{}''), (0, POST ''g'' ''b'' ''{}''),
                    (0, DELETE ''g'' ''a''), (0, POST ''g'' ''a'' ''{}'')] (emptyWorld 1000))
     = Returns (Some (VIds [''a'', ''b'', ''a'']))
   \<and> map_outcome (db_get (getGroupIndexKey ''g''))
       (serve config [(0, POST ''g'' ''a:b'' ''{}''), (0, POST ''g:a'' ''b'' ''{}''),
                      (0, DELETE ''g:a'' ''b''), (0, POST ''g'' ''a:b'' ''{}'')] (emptyWorld 1000))
     = Returns (Some (VIds [''a:b'', ''a:b'']))
   \<and> map_outcome (db_get (getGroupIndexKey ''g:a''))
       (serve config [(0, POST ''g'' ''a:b'' ''{}''), (0, POST ''g:a'' ''b'' ''{}'')]
          (emptyWorld 1000))
     = Returns (Some (VIds [''b'']))
   \<and> \<not> distinct [''a'', ''b'', ''a''] \<and> \<not> distinct [''a:b'', ''a:b'']"
  by (simp add: handler_defs emptyWorld_def config_def lock_defs key_defs
      store_defs loop_free mutexFree_def Let_def)

section \<open>What DELETE does to the store\<close>







section \<open>The deadline of a whole sweep\<close>













end
